theory Spec2Isabelle
  imports Main "HOL-Library.AList" "HOL-Library.Sublist"
begin

section \<open>Strings as the launcher uses them\<close>

text \<open>
  JavaScript strings are modelled as \<^typ>\<open>string\<close>. The launcher only splits strings on a
  separator, joins them again and tests components against \<^verbatim>\<open>/^\d+$/\<close>.
\<close>

definition is_digit :: "char \<Rightarrow> bool" where
  "is_digit c = (c \<in> set ''0123456789'')"

text \<open>\<^verbatim>\<open>/^\d+$/.test(x)\<close>: at least one character, every character a decimal digit.\<close>

definition digits :: "string \<Rightarrow> bool" where
  "digits x = (x \<noteq> [] \<and> list_all is_digit x)"

text \<open>
  \<^verbatim>\<open>s.split(c)\<close> for a separator of one character. A character other than the
  separator goes in front of the first piece of the rest; the rest always has a first piece.
\<close>

fun split_char :: "char \<Rightarrow> string \<Rightarrow> string list" where
  "split_char c [] = [[]]"
| "split_char c (x # xs) =
     (if x = c then [] # split_char c xs
      else (case split_char c xs of [] \<Rightarrow> [[x]] | p # ps \<Rightarrow> (x # p) # ps))"

text \<open>\<^verbatim>\<open>s.split('\r\n')\<close>: cut at every carriage return followed by a line feed.\<close>

fun split_crlf :: "string \<Rightarrow> string list" where
  "split_crlf [] = [[]]"
| "split_crlf [x] = [[x]]"
| "split_crlf (x # y # zs) =
     (if x = CHR 0x0D \<and> y = CHR 0x0A then [] # split_crlf zs
      else (case split_crlf (y # zs) of [] \<Rightarrow> [[x]] | p # ps \<Rightarrow> (x # p) # ps))"

text \<open>\<^verbatim>\<open>arr.join(sep)\<close>.\<close>

fun join :: "string \<Rightarrow> string list \<Rightarrow> string" where
  "join sep [] = []"
| "join sep [x] = x"
| "join sep (x # y # ys) = x @ sep @ join sep (y # ys)"

section \<open>Errors, events and the world\<close>

type_synonym path = "string list"

text \<open>
  A path is the list of its components below the root. \<^verbatim>\<open>path.join(p, s)\<close> and
  \<^verbatim>\<open>p + '/' + s\<close> are \<open>p @ [s]\<close>: a joined segment is taken to be one plain
  component (not empty, no separator, neither \<^verbatim>\<open>.\<close> nor \<^verbatim>\<open>..\<close>).
\<close>

datatype errcode = EEXIST | ENOENT | ENOTDIR | ENOTEMPTY | EISDIR | EPERM | EBUSY

text \<open>
  The values a promise of the launcher rejects with. \<open>Errno\<close> is Node's
  \<^verbatim>\<open>ErrnoException\<close> with its \<^verbatim>\<open>code\<close> and \<^verbatim>\<open>path\<close>; the others are the
  \<^verbatim>\<open>Error\<close> objects the source builds, named by their message. \<open>Uncaught e\<close> is an
  \<^verbatim>\<open>'error'\<close> event nobody listens for: the process dies and the promise never settles.
\<close>

datatype error =
    Errno errcode path
  | RequestFailed string
  | CouldNotResolve
  | NotAvailableForOS
  | IssueDownloading nat
  | CouldNotInstall string string
  | UnzipFailed path
  | InvalidArgType
  | OutOfFuel
  | Uncaught error

datatype event =
    HttpGet string
  | Download string path
  | Unzip path path
  | Chmod path nat
  | Spawn path "string list"

text \<open>What a file holds: plain data, or a zip archive listing the files it packs.\<close>

datatype content = Plain | Zip "(path \<times> nat) list"

text \<open>
  The file system is a tree. A directory is an association list read through
  \<^const>\<open>map_of\<close>; a file has a mode and a content. Symbolic links, special files and
  permission checks are not modelled: a system call fails only for the shape of the tree.
\<close>

datatype node = File nat content | Dir "(string \<times> node) list"

record world =
  fs :: node
  trace :: "event list"

text \<open>
  What the program is run against: the answers of the two HTTPS endpoints the launcher
  calls, and \<^verbatim>\<open>process.env.HOME\<close>.
\<close>

record env =
  http_get :: "string \<Rightarrow> error + string"
  http_download :: "string \<Rightarrow> nat \<times> content"
  HOME :: "path option"

type_synonym 'a io = "world \<Rightarrow> (error + 'a) \<times> world"

section \<open>Version resolution\<close>

text \<open>\<^verbatim>\<open>get(url)\<close>: one HTTPS request; the promise settles with what the endpoint answers.\<close>

definition get :: "env \<Rightarrow> string \<Rightarrow> string io" where
  "get e url w = (http_get e url, w\<lparr>trace := trace w @ [HttpGet url]\<rparr>)"

text \<open>\<^verbatim>\<open>first(arr, func)\<close>: \<open>None\<close> is \<^verbatim>\<open>null\<close>.\<close>

fun first :: "'a list \<Rightarrow> ('a \<Rightarrow> bool) \<Rightarrow> 'a option" where
  "first [] func = None"
| "first (x # xs) func = (if func x then Some x else first xs func)"

text \<open>\<^verbatim>\<open>takeWhile(arr, func)\<close>: the source's reduce over the pair \<^verbatim>\<open>{take, vals}\<close>.\<close>

definition takeWhile_arr :: "'a list \<Rightarrow> ('a \<Rightarrow> bool) \<Rightarrow> 'a list" where
  "takeWhile_arr arr func =
     snd (foldl (\<lambda>(take, vals) x. if take \<and> func x then (True, vals @ [x]) else (False, vals))
            (True, []) arr)"

definition versionsUrl :: string where
  "versionsUrl = ''https://cdn.openfin.co/release/runtimeVersions''"

definition channelUrl :: "string \<Rightarrow> string" where
  "channelUrl versionOrChannel = ''https://cdn.openfin.co/release/runtime/'' @ versionOrChannel"

text \<open>The final \<^verbatim>\<open>try { return await get(...) } catch { throw Error(...) }\<close>.\<close>

definition channelLookup :: "env \<Rightarrow> string \<Rightarrow> string io" where
  "channelLookup e versionOrChannel w =
     (case get e (channelUrl versionOrChannel) w of
        (Inl err, w') \<Rightarrow> (Inl CouldNotResolve, w')
      | (Inr body, w') \<Rightarrow> (Inr body, w'))"

text \<open>The predicate handed to \<^verbatim>\<open>first\<close>: compare the joined leading components.\<close>

definition matchesPrefix :: "string list \<Rightarrow> string \<Rightarrow> bool" where
  "matchesPrefix mustMatch v =
     (join ''.'' (take (length mustMatch) (split_char CHR ''.'' v)) = join ''.'' mustMatch)"

text \<open>
  The index lookup, the same text in both implementations: fetch the index, split it into
  lines, take the first line the predicate accepts, and return it when it is truthy
  (\<^verbatim>\<open>if (match)\<close> is false for \<^verbatim>\<open>null\<close> and for the empty string); otherwise fall
  through to the channel lookup. A failure of this \<^verbatim>\<open>get\<close> is outside the
  \<^verbatim>\<open>try\<close> and rejects with the request's own error.
\<close>

definition indexLookup :: "env \<Rightarrow> string \<Rightarrow> string list \<Rightarrow> string io" where
  "indexLookup e versionOrChannel mustMatch w =
     (case get e versionsUrl w of
        (Inl err, w') \<Rightarrow> (Inl err, w')
      | (Inr res, w') \<Rightarrow>
          (let versions = split_crlf res;
               match = first versions (matchesPrefix mustMatch)
           in case match of
                Some m \<Rightarrow> if m \<noteq> [] then (Inr m, w') else channelLookup e versionOrChannel w'
              | None \<Rightarrow> channelLookup e versionOrChannel w'))"

text \<open>\<^verbatim>\<open>resolveRuntimeVersion\<close> of \<^verbatim>\<open>src/launcher/util.ts\<close>.\<close>

definition resolveRuntimeVersion :: "env \<Rightarrow> string \<Rightarrow> string io" where
  "resolveRuntimeVersion e versionOrChannel w =
     (let splitVersion = split_char CHR ''.'' versionOrChannel;
          isVersion = (length splitVersion > 1 \<and>
                       list_all (\<lambda>x. x = ''*'' \<or> digits x) splitVersion)
      in if isVersion then
           (let mustMatch = takeWhile_arr splitVersion (\<lambda>x. x \<noteq> ''*'')
            in if 4 - int (length mustMatch) > 0
               then indexLookup e versionOrChannel mustMatch w
               else (Inr versionOrChannel, w))
         else channelLookup e versionOrChannel w)"

text \<open>\<^verbatim>\<open>resolveRuntimeVersion\<close> of the second implementation (\<^verbatim>\<open>part_000\<close>).\<close>

definition resolveRuntimeVersion_part000 :: "env \<Rightarrow> string \<Rightarrow> string io" where
  "resolveRuntimeVersion_part000 e versionOrChannel w =
     (let splitVersion = split_char CHR ''.'' versionOrChannel;
          isVersion = (length splitVersion = 4 \<and>
                       list_all (\<lambda>x. x = ''*'' \<or> digits x) splitVersion)
      in if isVersion then
           (let mustMatch = takeWhile_arr splitVersion (\<lambda>x. x \<noteq> ''*'')
            in if int (length splitVersion) - int (length mustMatch) > 0
               then indexLookup e versionOrChannel mustMatch w
               else (Inr versionOrChannel, w))
         else channelLookup e versionOrChannel w)"

section \<open>The file system\<close>

text \<open>
  \<open>lookup\<close> walks a path from the root: \<open>ENOENT\<close> where a name is missing,
  \<open>ENOTDIR\<close> where the walk would have to go through a file.
\<close>

fun lookup :: "node \<Rightarrow> path \<Rightarrow> errcode + node" where
  "lookup n [] = Inr n"
| "lookup (File m c) (s # p) = Inl ENOTDIR"
| "lookup (Dir es) (s # p) = (case map_of es s of None \<Rightarrow> Inl ENOENT | Some n \<Rightarrow> lookup n p)"

text \<open>
  \<open>alter p f\<close> rewrites the entry at \<open>p\<close> in its parent directory: \<open>f\<close> gets the
  entry (\<open>None\<close> when there is none) and says what it becomes (\<open>None\<close> to remove it).
  Nothing happens when the parent is not a directory, or for the root.
\<close>

fun alter :: "path \<Rightarrow> (node option \<Rightarrow> node option) \<Rightarrow> node \<Rightarrow> node" where
  "alter [] f n = n"
| "alter (s # p) f (File m c) = File m c"
| "alter [s] f (Dir es) =
     Dir (case f (map_of es s) of None \<Rightarrow> AList.delete s es | Some n \<Rightarrow> AList.update s n es)"
| "alter (s # t # p) f (Dir es) =
     (case map_of es s of
        None \<Rightarrow> Dir es
      | Some n \<Rightarrow> Dir (AList.update s (alter (t # p) f n) es))"

text \<open>The system calls the launcher makes, each on the tree alone.\<close>

definition stat :: "node \<Rightarrow> path \<Rightarrow> error + node" where
  "stat root p = (case lookup root p of Inl c \<Rightarrow> Inl (Errno c p) | Inr n \<Rightarrow> Inr n)"

definition lstat :: "node \<Rightarrow> path \<Rightarrow> error + node" where
  "lstat root p = (case lookup root p of Inl c \<Rightarrow> Inl (Errno c p) | Inr n \<Rightarrow> Inr n)"

fun isFile :: "node \<Rightarrow> bool" where
  "isFile (File m c) = True"
| "isFile (Dir es) = False"

definition readdir :: "node \<Rightarrow> path \<Rightarrow> error + string list" where
  "readdir root p =
     (case lookup root p of
        Inl c \<Rightarrow> Inl (Errno c p)
      | Inr (File m c) \<Rightarrow> Inl (Errno ENOTDIR p)
      | Inr (Dir es) \<Rightarrow> Inr (remdups (map fst es)))"

definition mkdir :: "node \<Rightarrow> path \<Rightarrow> error + node" where
  "mkdir root p =
     (if p = [] then Inl (Errno EEXIST p)
      else case lookup root (butlast p) of
             Inl c \<Rightarrow> Inl (Errno c p)
           | Inr (File m c) \<Rightarrow> Inl (Errno ENOTDIR p)
           | Inr (Dir es) \<Rightarrow>
               (case map_of es (last p) of
                  Some n \<Rightarrow> Inl (Errno EEXIST p)
                | None \<Rightarrow> Inr (alter p (\<lambda>_. Some (Dir [])) root)))"

definition unlink :: "node \<Rightarrow> path \<Rightarrow> error + node" where
  "unlink root p =
     (case lookup root p of
        Inl c \<Rightarrow> Inl (Errno c p)
      | Inr (Dir es) \<Rightarrow> Inl (Errno EPERM p)
      | Inr (File m c) \<Rightarrow> Inr (alter p (\<lambda>_. None) root))"

definition rmdir :: "node \<Rightarrow> path \<Rightarrow> error + node" where
  "rmdir root p =
     (case lookup root p of
        Inl c \<Rightarrow> Inl (Errno c p)
      | Inr (File m c) \<Rightarrow> Inl (Errno ENOTDIR p)
      | Inr (Dir es) \<Rightarrow>
          (if p = [] then Inl (Errno EBUSY p)
           else if es \<noteq> [] then Inl (Errno ENOTEMPTY p)
           else Inr (alter p (\<lambda>_. None) root)))"

fun setMode :: "nat \<Rightarrow> node \<Rightarrow> node" where
  "setMode mode (File m c) = File mode c"
| "setMode mode (Dir es) = Dir es"

definition chmod :: "path \<Rightarrow> nat \<Rightarrow> unit io" where
  "chmod p mode w =
     (case lookup (fs w) p of
        Inl c \<Rightarrow> (Inl (Errno c p), w)
      | Inr n \<Rightarrow> (Inr (), w\<lparr>fs := alter p (map_option (setMode mode)) (fs w),
                            trace := trace w @ [Chmod p mode]\<rparr>))"

text \<open>
  \<^verbatim>\<open>fs.createWriteStream(p)\<close> with the body piped into it: the parent must be a
  directory and \<open>p\<close> must not be one. A file that is there keeps its mode.
\<close>

definition writeStream :: "node \<Rightarrow> path \<Rightarrow> content \<Rightarrow> error + node" where
  "writeStream root p body =
     (if p = [] then Inl (Errno EISDIR p)
      else case lookup root (butlast p) of
             Inl c \<Rightarrow> Inl (Errno c p)
           | Inr (File m c) \<Rightarrow> Inl (Errno ENOTDIR p)
           | Inr (Dir es) \<Rightarrow>
               (case map_of es (last p) of
                  Some (Dir ds) \<Rightarrow> Inl (Errno EISDIR p)
                | Some (File m c) \<Rightarrow> Inr (alter p (\<lambda>_. Some (File m body)) root)
                | None \<Rightarrow> Inr (alter p (\<lambda>_. Some (File 420 body)) root)))"

section \<open>Removing a directory\<close>

text \<open>
  Modelled from the spec: \<^verbatim>\<open>promiseMap\<close> of \<^verbatim>\<open>util/promises\<close> is not among the
  sources. It runs the callback on every element; here one after the other, as the loop of
  the second implementation does, and it rejects with the first rejection. \<open>None\<close> is a
  callback that did not return.
\<close>

fun promiseMap ::
  "'a list \<Rightarrow> ('a \<Rightarrow> 's \<Rightarrow> ((error + unit) \<times> 's) option) \<Rightarrow> 's \<Rightarrow> ((error + unit) \<times> 's) option"
where
  "promiseMap [] func s = Some (Inr (), s)"
| "promiseMap (x # xs) func s =
     (case func x s of
        None \<Rightarrow> None
      | Some (Inl err, s') \<Rightarrow> Some (Inl err, s')
      | Some (Inr u, s') \<Rightarrow> promiseMap xs func s')"

text \<open>
  \<^verbatim>\<open>rmDir(dirPath, removeSelf)\<close> of \<^verbatim>\<open>util.ts\<close>. The recursion follows the tree on
  disk, so it is bounded by a counter; \<open>None\<close> is a counter that ran out.
\<close>

fun rmDir_fuel :: "nat \<Rightarrow> path \<Rightarrow> bool \<Rightarrow> node \<Rightarrow> ((error + unit) \<times> node) option" where
  "rmDir_fuel 0 dirPath removeSelf root = None"
| "rmDir_fuel (Suc k) dirPath removeSelf root =
     (case readdir root dirPath of
        Inl e \<Rightarrow> Some (Inr (), root)
      | Inr files \<Rightarrow>
          (case promiseMap files
                  (\<lambda>f r. let filePath = dirPath @ [f] in
                     case lstat r filePath of
                       Inl err \<Rightarrow> Some (Inl err, r)
                     | Inr file \<Rightarrow>
                         if isFile file then
                           (case unlink r filePath of
                              Inl err \<Rightarrow> Some (Inl err, r)
                            | Inr r' \<Rightarrow> Some (Inr (), r'))
                         else rmDir_fuel k filePath True r)
                  root of
             None \<Rightarrow> None
           | Some (Inl err, root') \<Rightarrow> Some (Inl err, root')
           | Some (Inr u, root') \<Rightarrow>
               if removeSelf then
                 (case rmdir root' dirPath of
                    Inl err \<Rightarrow> Some (Inl err, root')
                  | Inr root'' \<Rightarrow> Some (Inr (), root''))
               else Some (Inr (), root')))"

text \<open>
  The tree below \<open>dirPath\<close> is never deeper than the size of the whole tree, so that
  many steps are enough (lemma \<open>rmDir_fuel_enough\<close>) and \<open>OutOfFuel\<close> never shows.
\<close>

definition rmDir :: "path \<Rightarrow> bool \<Rightarrow> node \<Rightarrow> (error + unit) \<times> node" where
  "rmDir dirPath removeSelf root =
     (case rmDir_fuel (Suc (size root)) dirPath removeSelf root of
        Some r \<Rightarrow> r
      | None \<Rightarrow> (Inl OutOfFuel, root))"

section \<open>Download and extraction\<close>

text \<open>
  \<^verbatim>\<open>downloadFile(url, writeLocation)\<close>: one HTTPS request. A status other than 200
  rejects; on 200 the body is written to \<open>writeLocation\<close>. The write stream has no
  \<^verbatim>\<open>'error'\<close> listener, so a failure to open it is uncaught.
\<close>

definition downloadFile :: "env \<Rightarrow> string \<Rightarrow> path \<Rightarrow> unit io" where
  "downloadFile e url writeLocation w =
     (let w' = w\<lparr>trace := trace w @ [Download url writeLocation]\<rparr>;
          (statusCode, body) = http_download e url
      in if statusCode \<noteq> 200 then
           (if statusCode = 404 then (Inl NotAvailableForOS, w')
            else (Inl (IssueDownloading statusCode), w'))
         else (case writeStream (fs w') writeLocation body of
                 Inl err \<Rightarrow> (Inl (Uncaught err), w')
               | Inr root' \<Rightarrow> (Inr (), w'\<lparr>fs := root'\<rparr>)))"

text \<open>
  Writing one packed file below the root, with the directories on its way made as needed.
  \<open>None\<close> when the place is taken: a file where a directory is needed, or anything at the
  target itself.
\<close>

fun plant :: "path \<Rightarrow> nat \<Rightarrow> node \<Rightarrow> node option" where
  "plant [] mode n = None"
| "plant (s # p) mode (File m c) = None"
| "plant [s] mode (Dir es) =
     (case map_of es s of
        None \<Rightarrow> Some (Dir (AList.update s (File mode Plain) es))
      | Some n \<Rightarrow> None)"
| "plant (s # t # p) mode (Dir es) =
     (case plant (t # p) mode (case map_of es s of None \<Rightarrow> Dir [] | Some n \<Rightarrow> n) of
        None \<Rightarrow> None
      | Some n' \<Rightarrow> Some (Dir (AList.update s n' es)))"

fun extractAll :: "(path \<times> nat) list \<Rightarrow> path \<Rightarrow> node \<Rightarrow> bool \<times> node" where
  "extractAll [] dest root = (True, root)"
| "extractAll ((rel, mode) # entries) dest root =
     (case plant (dest @ rel) mode root of
        None \<Rightarrow> (False, root)
      | Some root' \<Rightarrow> extractAll entries dest root')"

text \<open>
  \<^verbatim>\<open>unzip(file, dest)\<close> runs the external \<^verbatim>\<open>unzip file -d dest\<close>. It is modelled as:
  \<open>file\<close> must be a zip archive and \<open>dest\<close> a directory; the packed files are written
  in order below \<open>dest\<close>, and the command fails at the first one that cannot be written,
  leaving the earlier ones in place.
\<close>

definition unzip :: "path \<Rightarrow> path \<Rightarrow> unit io" where
  "unzip file dest w =
     (let w' = w\<lparr>trace := trace w @ [Unzip file dest]\<rparr>
      in case (lookup (fs w') file, lookup (fs w') dest) of
           (Inr (File m (Zip entries)), Inr (Dir es)) \<Rightarrow>
             (case extractAll entries dest (fs w') of
                (True, root') \<Rightarrow> (Inr (), w'\<lparr>fs := root'\<rparr>)
              | (False, root') \<Rightarrow> (Inl (UnzipFailed file), w'\<lparr>fs := root'\<rparr>))
         | _ \<Rightarrow> (Inl (UnzipFailed file), w'))"

definition runtimeRoot :: string where
  "runtimeRoot = ''https://developer.openfin.co/release/runtime/''"

text \<open>The URL \<^verbatim>\<open>download\<close> asks for: \<^verbatim>\<open>`${runtimeRoot}mac/x64/${version}`\<close>.\<close>

definition downloadUrl :: "string \<Rightarrow> string" where
  "downloadUrl version = runtimeRoot @ ''mac/x64/'' @ version"

text \<open>\<^verbatim>\<open>download(version, folder)\<close> of \<^verbatim>\<open>mac-launch.ts\<close>.\<close>

definition download :: "env \<Rightarrow> string \<Rightarrow> path \<Rightarrow> path io" where
  "download e version folder w =
     (let url = downloadUrl version;
          tmp = ''tmp''
      in case rmDir folder False (fs w) of
           (Inl err, root1) \<Rightarrow> (Inl err, w\<lparr>fs := root1\<rparr>)
         | (Inr u, root1) \<Rightarrow>
             (let root2 = (case mkdir root1 (folder @ [tmp]) of Inl err \<Rightarrow> root1 | Inr r \<Rightarrow> r);
                  file = folder @ [tmp, ''tmp'']
              in case downloadFile e url file (w\<lparr>fs := root2\<rparr>) of
                   (Inl err, w3) \<Rightarrow> (Inl err, w3)
                 | (Inr u, w3) \<Rightarrow>
                     (case unzip file folder w3 of
                        (Inl err, w4) \<Rightarrow> (Inl err, w4)
                      | (Inr u, w4) \<Rightarrow>
                          (case rmDir (folder @ [tmp]) True (fs w4) of
                             (Inl err, root5) \<Rightarrow> (Inl err, w4\<lparr>fs := root5\<rparr>)
                           | (Inr u, root5) \<Rightarrow> (Inr folder, w4\<lparr>fs := root5\<rparr>)))))"

section \<open>The installation directory\<close>

text \<open>\<^verbatim>\<open>err.code === 'EEXIST' ? err.path : Promise.reject(err)\<close>.\<close>

fun catchExistsError :: "error \<Rightarrow> error + path" where
  "catchExistsError (Errno EEXIST p) = Inr p"
| "catchExistsError err = Inl err"

text \<open>
  \<^verbatim>\<open>resolveDir(base, paths)\<close> of \<^verbatim>\<open>util.ts\<close>: a reduce over the segments. Each step
  awaits the path so far, makes the next directory below it and yields the joined path; a
  failure of either goes through the \<^verbatim>\<open>catch\<close>.
\<close>

definition resolveDir :: "path \<Rightarrow> string list \<Rightarrow> path io" where
  "resolveDir base paths w =
     foldl (\<lambda>(p, w) next.
              case p of
                Inl err \<Rightarrow> (catchExistsError err, w)
              | Inr prev \<Rightarrow>
                  (case mkdir (fs w) (prev @ [next]) of
                     Inl err \<Rightarrow> (catchExistsError err, w)
                   | Inr root' \<Rightarrow> (Inr (prev @ [next]), w\<lparr>fs := root'\<rparr>)))
       (Inr base, w) paths"

text \<open>
  \<^verbatim>\<open>getRuntimePath(version)\<close> of \<^verbatim>\<open>mac-launch.ts\<close>: the same reduce from
  \<^verbatim>\<open>process.env.HOME\<close>. Without \<^verbatim>\<open>HOME\<close> the first \<^verbatim>\<open>path.join\<close> throws a
  \<^verbatim>\<open>TypeError\<close>, which every later step rejects with again.
\<close>

definition getRuntimePath :: "env \<Rightarrow> string \<Rightarrow> path io" where
  "getRuntimePath e version w =
     (let versionPath = [''OpenFin'', ''Runtime'', version]
      in case HOME e of
           None \<Rightarrow> (Inl InvalidArgType, w)
         | Some home \<Rightarrow>
             foldl (\<lambda>(p, w) next.
                      case p of
                        Inl err \<Rightarrow> (catchExistsError err, w)
                      | Inr prev \<Rightarrow>
                          (case mkdir (fs w) (prev @ [next]) of
                             Inl err \<Rightarrow> (catchExistsError err, w)
                           | Inr root' \<Rightarrow> (Inr (prev @ [next]), w\<lparr>fs := root'\<rparr>)))
               (Inr home, w) versionPath)"

section \<open>Install and launch\<close>

fun uncaught :: "error \<Rightarrow> bool" where
  "uncaught (Uncaught err) = True"
| "uncaught err = False"

definition binaryPath :: path where
  "binaryPath = [''OpenFin.app'', ''Contents'', ''MacOS'', ''OpenFin'']"

text \<open>The installation directory \<^verbatim>\<open><home>/OpenFin/Runtime/<version>\<close>.\<close>

definition installationDir :: "path \<Rightarrow> string \<Rightarrow> path" where
  "installationDir home version = home @ [''OpenFin'', ''Runtime'', version]"

text \<open>
  \<^verbatim>\<open>install(versionOrChannel)\<close> of \<^verbatim>\<open>mac-launch.ts\<close>. The \<^verbatim>\<open>catch\<close> around
  \<^verbatim>\<open>download\<close> replaces every rejection by one error naming the two versions; an
  uncaught error is not a rejection and passes.
\<close>

definition install :: "env \<Rightarrow> string \<Rightarrow> path io" where
  "install e versionOrChannel w =
     (case resolveRuntimeVersion e versionOrChannel w of
        (Inl err, w1) \<Rightarrow> (Inl err, w1)
      | (Inr version, w1) \<Rightarrow>
          (case getRuntimePath e version w1 of
             (Inl err, w2) \<Rightarrow> (Inl err, w2)
           | (Inr rtFolder, w2) \<Rightarrow>
               (let rtPath = rtFolder @ binaryPath
                in case stat (fs w2) rtPath of
                     Inr st \<Rightarrow>
                       (case chmod rtPath 493 w2 of
                          (Inl err, w3) \<Rightarrow> (Inl err, w3)
                        | (Inr u, w3) \<Rightarrow> (Inr rtPath, w3))
                   | Inl err \<Rightarrow>
                       (case download e version rtFolder w2 of
                          (Inl err, w3) \<Rightarrow>
                            (if uncaught err then (Inl err, w3)
                             else (Inl (CouldNotInstall versionOrChannel version), w3))
                        | (Inr folder, w3) \<Rightarrow> (Inr rtPath, w3)))))"

text \<open>\<^verbatim>\<open>config.runtime\<close>, a field that may be left out being an option.\<close>

record runtimeConfig =
  version :: string
  fallbackVersion :: "string option"
  additionalArgument :: "string option"
  securityRealm :: "string option"
  verboseLogging :: bool

definition spawn :: "path \<Rightarrow> string list \<Rightarrow> (path \<times> string list) io" where
  "spawn command args w = (Inr (command, args), w\<lparr>trace := trace w @ [Spawn command args]\<rparr>)"

text \<open>
  The argument vector \<^verbatim>\<open>launch\<close> builds: the extra arguments, then
  \<^verbatim>\<open>unshift\<close> of the startup URL in front, then one \<^verbatim>\<open>push\<close> after the other;
  \<open>fb\<close> is the flag the fallback sets. An empty string is falsy.
\<close>

definition launchArgs :: "runtimeConfig \<Rightarrow> bool \<Rightarrow> string \<Rightarrow> string \<Rightarrow> string list" where
  "launchArgs config fb manifestLocation namedPipeName =
     (let args0 = (case additionalArgument config of
                     Some a \<Rightarrow> if a \<noteq> [] then split_char CHR '' '' a else []
                   | None \<Rightarrow> []);
          args1 = (''--startup-url='' @ manifestLocation) # args0;
          args2 = args1 @ [''--version-keyword='' @
                    (if fb then (case fallbackVersion config of
                                   Some fallback \<Rightarrow> fallback
                                 | None \<Rightarrow> ''undefined'')
                     else version config)];
          args3 = args2 @ [''--runtime-information-channel-v6='' @ namedPipeName];
          args4 = (case securityRealm config of
                     Some realm \<Rightarrow>
                       if realm \<noteq> [] then args3 @ [''--security-realm='' @ realm] else args3
                   | None \<Rightarrow> args3);
          args5 = (if verboseLogging config
                   then args4 @ [''--v=1'', ''--attach-console''] else args4)
      in args5)"

text \<open>
  \<^verbatim>\<open>launch(config, manifestLocation, namedPipeName)\<close> of \<^verbatim>\<open>mac-launch.ts\<close>. The
  \<^verbatim>\<open>.catch\<close> on the first install runs the fallback when one is configured; the outer
  \<^verbatim>\<open>try\<close> logs and throws the same error again. Console output is not modelled.
\<close>

definition launch :: "env \<Rightarrow> runtimeConfig \<Rightarrow> string \<Rightarrow> string \<Rightarrow> (path \<times> string list) io" where
  "launch e config manifestLocation namedPipeName w =
     (let (installed, fb, w') =
            (case install e (version config) w of
               (Inr runtimePath, w1) \<Rightarrow> (Inr runtimePath, False, w1)
             | (Inl err, w1) \<Rightarrow>
                 (if uncaught err then (Inl err, False, w1)
                  else case fallbackVersion config of
                         Some fallback \<Rightarrow>
                           (case install e fallback w1 of (r, w2) \<Rightarrow> (r, True, w2))
                       | None \<Rightarrow> (Inl err, False, w1)))
      in case installed of
           Inl err \<Rightarrow> (Inl err, w')
         | Inr runtimePath \<Rightarrow>
             spawn runtimePath (launchArgs config fb manifestLocation namedPipeName) w')"

text \<open>The processes a world has seen spawned.\<close>

fun isSpawn :: "event \<Rightarrow> bool" where
  "isSpawn (Spawn command args) = True"
| "isSpawn ev = False"

definition spawned :: "world \<Rightarrow> event list" where
  "spawned w = filter isSpawn (trace w)"

text \<open>What a step that removes the entry at \<open>p\<close> leaves: nothing at \<open>p\<close>, every path
  beside \<open>p\<close> as it was, and the directories above \<open>p\<close> still directories.\<close>

definition removedAt :: "path \<Rightarrow> node \<Rightarrow> node \<Rightarrow> bool" where
  "removedAt p root root' \<longleftrightarrow>
     lookup root' p = Inl ENOENT \<and>
     (\<forall>q. p \<parallel> q \<longrightarrow> lookup root' q = lookup root q) \<and>
     (\<forall>q es. strict_prefix q p \<longrightarrow> lookup root q = Inr (Dir es) \<longrightarrow>
        (\<exists>es'. lookup root' q = Inr (Dir es')))"

section \<open>A concrete remote and concrete machines\<close>

text \<open>
  The remote of the scenarios. The version index has three lines separated by carriage
  return and line feed, and every other request fails. The archive of \<^verbatim>\<open>10.65.1.2\<close> for
  the Mac packs the binary and one more file; every other download answers 404.
\<close>

definition env_scenario :: env where
  "env_scenario =
     \<lparr>http_get = (\<lambda>url. if url = versionsUrl
                         then Inr (''10.65.1.2'' @ [CHR 0x0D, CHR 0x0A] @ ''10.65.0.9'' @
                                   [CHR 0x0D, CHR 0x0A] @ ''9.0.0.0'')
                         else Inl (RequestFailed url)),
      http_download = (\<lambda>url. if url = downloadUrl ''10.65.1.2''
                              then (200, Zip [(binaryPath, 493),
                                              ([''OpenFin.app'', ''Contents'', ''Info.plist''], 420)])
                              else (404, Plain)),
      HOME = Some [''Users'', ''dev'']\<rparr>"

definition world_empty :: world where
  "world_empty = \<lparr>fs = Dir [], trace = []\<rparr>"

text \<open>A machine with the home directory only.\<close>

definition world_home :: world where
  "world_home = \<lparr>fs = Dir [(''Users'', Dir [(''dev'', Dir [])])], trace = []\<rparr>"

text \<open>A machine where the installation directory of 10.65.1.2 holds an old file and no binary.\<close>

definition world_stale :: world where
  "world_stale =
     \<lparr>fs = Dir [(''Users'', Dir [(''dev'', Dir [(''OpenFin'', Dir [(''Runtime'',
             Dir [(''10.65.1.2'', Dir [(''notes.txt'', File 420 Plain)])])])])])],
      trace = []\<rparr>"

text \<open>
  A machine where an earlier installation of 10.65.1.2 was cut short: a note, a file inside
  the application bundle, a file inside the staging directory, and no binary.
\<close>

definition world_partial :: world where
  "world_partial =
     \<lparr>fs = Dir [(''Users'', Dir [(''dev'', Dir [(''OpenFin'', Dir [(''Runtime'',
             Dir [(''10.65.1.2'',
               Dir [(''notes.txt'', File 420 Plain),
                    (''OpenFin.app'', Dir [(''Contents'', Dir [(''stale.txt'', File 420 Plain)])]),
                    (''tmp'', Dir [(''old'', File 420 Plain)])])])])])])],
      trace = []\<rparr>"

text \<open>A machine where the binary of 10.65.1.2 is installed, not executable.\<close>

definition world_installed :: world where
  "world_installed =
     \<lparr>fs = Dir [(''Users'', Dir [(''dev'', Dir [(''OpenFin'', Dir [(''Runtime'',
             Dir [(''10.65.1.2'', Dir [(''OpenFin.app'', Dir [(''Contents'',
               Dir [(''MacOS'', Dir [(''OpenFin'', File 420 Plain)])])])])])])])])],
      trace = []\<rparr>"

text \<open>Configurations: a version no endpoint knows, with and without a fallback.\<close>

definition cfg_fallback :: runtimeConfig where
  "cfg_fallback =
     \<lparr>version = ''bad'', fallbackVersion = Some ''10.65.1.2'',
      additionalArgument = None, securityRealm = None, verboseLogging = False\<rparr>"

definition cfg_bad_fallback :: runtimeConfig where
  "cfg_bad_fallback =
     \<lparr>version = ''bad'', fallbackVersion = Some ''9.0.0.0'',
      additionalArgument = None, securityRealm = None, verboseLogging = False\<rparr>"

definition cfg_extra :: runtimeConfig where
  "cfg_extra =
     \<lparr>version = ''10.65.1.2'', fallbackVersion = None,
      additionalArgument = Some ''--foo --bar'', securityRealm = Some ''realm'',
      verboseLogging = True\<rparr>"

section \<open>Facts about splitting and joining\<close>

lemma takeWhile_arr_aux:
  "foldl (\<lambda>(take, vals) x. if take \<and> p x then (True, vals @ [x]) else (False, vals)) (b, acc) xs
   = (if b then (list_all p xs, acc @ takeWhile p xs) else (False, acc))"
  by (induction xs arbitrary: b acc) auto

lemma takeWhile_arr_eq: "takeWhile_arr xs p = takeWhile p xs"
  by (simp add: takeWhile_arr_def takeWhile_arr_aux)

lemma split_char_nonempty: "split_char c s \<noteq> []"
  by (induction s) (auto split: list.splits)

lemma split_char_free: "c \<notin> set s \<Longrightarrow> split_char c s = [s]"
  by (induction s) (auto split: list.splits)

lemma split_char_append: "c \<notin> set x \<Longrightarrow> split_char c (x @ c # rest) = x # split_char c rest"
  by (induction x) (auto split: list.splits)

lemma split_char_elems: "x \<in> set (split_char c s) \<Longrightarrow> c \<notin> set x"
proof (induction s arbitrary: x)
  case Nil
  then show ?case by simp
next
  case (Cons a s)
  obtain y ys where ys: "split_char c s = y # ys"
    using split_char_nonempty [of c s] by (cases "split_char c s") auto
  with Cons show ?case by (auto split: if_splits)
qed

lemma split_join:
  "xs \<noteq> [] \<Longrightarrow> \<forall>x\<in>set xs. c \<notin> set x \<Longrightarrow> split_char c (join [c] xs) = xs"
  by (induction "[c]" xs rule: join.induct) (auto simp: split_char_free split_char_append)


lemma join_inj:
  assumes "xs \<noteq> []" "ys \<noteq> []" "\<forall>x\<in>set xs. c \<notin> set x" "\<forall>y\<in>set ys. c \<notin> set y"
    "join [c] xs = join [c] ys"
  shows "xs = ys"
proof -
  have "xs = split_char c (join [c] xs)" using assms(1,3) by (simp add: split_join)
  also have "\<dots> = split_char c (join [c] ys)" using assms(5) by simp
  also have "\<dots> = ys" using assms(2,4) by (simp add: split_join)
  finally show ?thesis .
qed

lemma digits_no_dot: "digits x \<Longrightarrow> CHR ''.'' \<notin> set x"
  unfolding digits_def list_all_iff is_digit_def by fastforce

lemma digits_not_star: "digits x \<Longrightarrow> x \<noteq> ''*''"
  unfolding digits_def is_digit_def by fastforce

lemma matchesPrefix_iff:
  assumes "pre \<noteq> []" "list_all digits pre"
  shows "matchesPrefix pre v \<longleftrightarrow> take (length pre) (split_char CHR ''.'' v) = pre"
proof -
  let ?t = "take (length pre) (split_char CHR ''.'' v)"
  have ne: "?t \<noteq> []" using assms(1) split_char_nonempty [of "CHR ''.''" v] by simp
  have a: "\<forall>x\<in>set ?t. CHR ''.'' \<notin> set x"
    using split_char_elems by (meson in_set_takeD)
  have b: "\<forall>x\<in>set pre. CHR ''.'' \<notin> set x"
    using assms(2) digits_no_dot by (auto simp: list_all_iff)
  show ?thesis
    unfolding matchesPrefix_def using join_inj [OF ne assms(1) a b] by auto
qed

lemma first_cong: "(\<And>x. x \<in> set xs \<Longrightarrow> P x = Q x) \<Longrightarrow> first xs P = first xs Q"
  by (induction xs) auto

lemma first_index:
  "\<exists>x\<in>set xs. P x \<Longrightarrow>
   \<exists>i<length xs. first xs P = Some (xs ! i) \<and> P (xs ! i) \<and> (\<forall>j<i. \<not> P (xs ! j))"
proof (induction xs)
  case Nil
  then show ?case by simp
next
  case (Cons x xs)
  show ?case
  proof (cases "P x")
    case True
    then show ?thesis by (intro exI [of _ 0]) simp
  next
    case False
    with Cons obtain i where i: "i < length xs" "first xs P = Some (xs ! i)" "P (xs ! i)"
      "\<forall>j<i. \<not> P (xs ! j)" by auto
    show ?thesis
    proof (intro exI [of _ "Suc i"] conjI allI impI)
      fix j assume "j < Suc i"
      then show "\<not> P ((x # xs) ! j)" using False i(4) by (cases j) auto
    qed (use i False in auto)
  qed
qed

lemma takeWhile_fixed:
  assumes "list_all digits pre" "stars \<noteq> []" "list_all (\<lambda>x. x = ''*'') stars"
  shows "takeWhile (\<lambda>x. x \<noteq> ''*'') (pre @ stars) = pre"
proof -
  have "\<forall>x\<in>set pre. x \<noteq> ''*''" using assms(1) digits_not_star by (auto simp: list_all_iff)
  moreover have "hd stars = ''*''" using assms(2,3) by (cases stars) auto
  ultimately show ?thesis using assms(2)
    by (cases stars) (auto simp: takeWhile_append2)
qed

lemma get_simp [simp]: "get e url w = (http_get e url, w\<lparr>trace := trace w @ [HttpGet url]\<rparr>)"
  by (simp add: get_def)

lemma indexLookup_first:
  assumes pre: "pre \<noteq> []" "list_all digits pre"
    and res: "http_get e versionsUrl = Inr res"
    and ex: "\<exists>x\<in>set (split_crlf res). take (length pre) (split_char CHR ''.'' x) = pre"
  shows "\<exists>i<length (split_crlf res).
           take (length pre) (split_char CHR ''.'' (split_crlf res ! i)) = pre \<and>
           (\<forall>j<i. take (length pre) (split_char CHR ''.'' (split_crlf res ! j)) \<noteq> pre) \<and>
           (\<forall>w. indexLookup e v pre w =
                  (Inr (split_crlf res ! i), w\<lparr>trace := trace w @ [HttpGet versionsUrl]\<rparr>))"
proof -
  let ?idx = "split_crlf res"
  let ?P = "\<lambda>x. take (length pre) (split_char CHR ''.'' x) = pre"
  from first_index [of ?idx ?P] ex obtain i where i: "i < length ?idx"
    "first ?idx ?P = Some (?idx ! i)" "?P (?idx ! i)" "\<forall>j<i. \<not> ?P (?idx ! j)"
    by blast
  have eq: "first ?idx (matchesPrefix pre) = first ?idx ?P"
    by (rule first_cong) (simp add: matchesPrefix_iff [OF pre])
  have "?idx ! i \<noteq> []"
  proof
    assume "?idx ! i = []"
    with i(3) have "pre = [[]]" using pre(1) by (cases pre) auto
    with pre(2) show False by (simp add: digits_def)
  qed
  then have "\<forall>w. indexLookup e v pre w =
     (Inr (?idx ! i), w\<lparr>trace := trace w @ [HttpGet versionsUrl]\<rparr>)"
    by (simp add: indexLookup_def res eq i(2))
  with i show ?thesis by blast
qed

text \<open>
  Claim C1. A spec whose components are a non-empty numeric prefix of fewer than four
  components followed only by wildcards resolves, when the index answers and has an entry
  whose leading components equal that prefix, to the first such entry in index order, with
  the one index request as its only effect. The entry does not depend on the world, so a
  second run against the same index gives the same entry. The second implementation does
  the same on a spec of four components.
\<close>

theorem resolveRuntimeVersion_first_prefix_match:
  assumes spec: "split_char CHR ''.'' v = pre @ stars"
    and pre: "pre \<noteq> []" "list_all digits pre" "length pre < 4"
    and stars: "stars \<noteq> []" "list_all (\<lambda>x. x = ''*'') stars"
    and res: "http_get e versionsUrl = Inr res"
    and ex: "\<exists>x\<in>set (split_crlf res). take (length pre) (split_char CHR ''.'' x) = pre"
  shows "\<exists>i<length (split_crlf res).
           take (length pre) (split_char CHR ''.'' (split_crlf res ! i)) = pre \<and>
           (\<forall>j<i. take (length pre) (split_char CHR ''.'' (split_crlf res ! j)) \<noteq> pre) \<and>
           (\<forall>w. resolveRuntimeVersion e v w =
                  (Inr (split_crlf res ! i), w\<lparr>trace := trace w @ [HttpGet versionsUrl]\<rparr>)) \<and>
           (length (pre @ stars) = 4 \<longrightarrow>
              (\<forall>w. resolveRuntimeVersion_part000 e v w =
                  (Inr (split_crlf res ! i), w\<lparr>trace := trace w @ [HttpGet versionsUrl]\<rparr>)))"
proof -
  have len: "length (pre @ stars) > 1"
    using pre(1) stars(1) by (cases pre; cases stars) auto
  have all: "list_all (\<lambda>x. x = ''*'' \<or> digits x) (pre @ stars)"
    using pre(2) stars(2) by (auto simp: list_all_iff)
  have tw: "takeWhile_arr (pre @ stars) (\<lambda>x. x \<noteq> ''*'') = pre"
    by (simp add: takeWhile_arr_eq takeWhile_fixed [OF pre(2) stars])
  have a: "resolveRuntimeVersion e v w = indexLookup e v pre w" for w
    unfolding resolveRuntimeVersion_def Let_def spec using len all tw pre(3) by simp
  have b: "resolveRuntimeVersion_part000 e v w = indexLookup e v pre w"
    if "length (pre @ stars) = 4" for w
    unfolding resolveRuntimeVersion_part000_def Let_def spec using that all tw pre(3) by simp
  from indexLookup_first [OF pre(1,2) res ex, of v] a b show ?thesis by auto
qed

theorem resolveRuntimeVersion_first_prefix_match_witness:
  "resolveRuntimeVersion env_scenario ''10.*.*.*'' world_empty =
     (Inr ''10.65.1.2'', world_empty\<lparr>trace := [HttpGet versionsUrl]\<rparr>)"
proof -
  let ?res = "''10.65.1.2'' @ [CHR 0x0D, CHR 0x0A] @ ''10.65.0.9'' @
              [CHR 0x0D, CHR 0x0A] @ ''9.0.0.0''"
  have idx: "split_crlf ?res = [''10.65.1.2'', ''10.65.0.9'', ''9.0.0.0'']" by simp
  have spec: "split_char CHR ''.'' ''10.*.*.*'' = [''10''] @ [''*'', ''*'', ''*'']" by simp
  have dg: "list_all digits [''10'']" by (simp add: digits_def is_digit_def)
  have res: "http_get env_scenario versionsUrl = Inr ?res" by (simp add: env_scenario_def)
  have ex: "\<exists>x\<in>set (split_crlf ?res). take (length [''10'']) (split_char CHR ''.'' x) = [''10'']"
    unfolding idx by simp
  from resolveRuntimeVersion_first_prefix_match [OF spec _ dg _ _ _ res ex]
  obtain i where i: "i < length (split_crlf ?res)"
    "\<forall>j<i. take (length [''10'']) (split_char CHR ''.'' (split_crlf ?res ! j)) \<noteq> [''10'']"
    "\<forall>w. resolveRuntimeVersion env_scenario ''10.*.*.*'' w =
        (Inr (split_crlf ?res ! i), w\<lparr>trace := trace w @ [HttpGet versionsUrl]\<rparr>)"
    by auto
  have "i = 0"
  proof (rule ccontr)
    assume "i \<noteq> 0"
    then have "0 < i" by simp
    with i(2) have "take (length [''10'']) (split_char CHR ''.'' (split_crlf ?res ! 0)) \<noteq> [''10'']"
      by blast
    then show False unfolding idx by simp
  qed
  with i(3) show ?thesis unfolding idx by (simp add: world_empty_def)
qed

lemma takeWhile_numeric:
  assumes "list_all digits xs"
  shows "takeWhile_arr xs (\<lambda>x. x \<noteq> ''*'') = xs"
proof -
  have "\<forall>x\<in>set xs. x \<noteq> ''*''" using assms digits_not_star by (auto simp: list_all_iff)
  then show ?thesis by (simp add: takeWhile_arr_eq)
qed

lemma numeric_isVersion:
  "list_all digits xs \<Longrightarrow> list_all (\<lambda>x. x = ''*'' \<or> digits x) xs"
  by (simp add: list_all_iff)

text \<open>
  Claim C2. A version spec has four components. One whose components are all numeric is
  returned unchanged, with no request at all and the world as it was, by \<^verbatim>\<open>util.ts\<close>
  (which does so for four components or more) and by \<^verbatim>\<open>part_000\<close>.
\<close>

theorem resolveRuntimeVersion_numeric_unchanged:
  assumes "list_all digits (split_char CHR ''.'' v)"
  shows "(4 \<le> length (split_char CHR ''.'' v) \<longrightarrow> resolveRuntimeVersion e v w = (Inr v, w)) \<and>
         (length (split_char CHR ''.'' v) = 4 \<longrightarrow> resolveRuntimeVersion_part000 e v w = (Inr v, w))"
  using assms
  by (simp add: resolveRuntimeVersion_def resolveRuntimeVersion_part000_def Let_def
      takeWhile_numeric numeric_isVersion)

theorem resolveRuntimeVersion_numeric_unchanged_witness:
  "list_all digits (split_char CHR ''.'' ''10.65.1.2'') \<and>
   resolveRuntimeVersion env_scenario ''10.65.1.2'' world_empty = (Inr ''10.65.1.2'', world_empty) \<and>
   resolveRuntimeVersion_part000 env_scenario ''10.65.1.2'' world_empty =
     (Inr ''10.65.1.2'', world_empty)"
proof -
  have d: "list_all digits (split_char CHR ''.'' ''10.65.1.2'')"
    by (simp add: digits_def is_digit_def)
  have l: "length (split_char CHR ''.'' ''10.65.1.2'') = 4" by simp
  from resolveRuntimeVersion_numeric_unchanged [OF d, of env_scenario world_empty] l d
  show ?thesis by simp
qed

lemma all_wildcards_lookup:
  "resolveRuntimeVersion e ''*.*.*.*'' w = indexLookup e ''*.*.*.*'' [] w"
  "resolveRuntimeVersion_part000 e ''*.*.*.*'' w = indexLookup e ''*.*.*.*'' [] w"
  by (simp_all add: resolveRuntimeVersion_def resolveRuntimeVersion_part000_def takeWhile_arr_def)

text \<open>
  Claim C9, as amended. On \<^verbatim>\<open>*.*.*.*\<close> the two implementations do the same: both
  run the index lookup with an empty prefix, whatever the remote answers.
\<close>

theorem resolveRuntimeVersion_all_wildcards_agree:
  "resolveRuntimeVersion e ''*.*.*.*'' w = resolveRuntimeVersion_part000 e ''*.*.*.*'' w \<and>
   resolveRuntimeVersion e ''*.*.*.*'' w = indexLookup e ''*.*.*.*'' [] w"
  by (simp add: all_wildcards_lookup)

theorem resolveRuntimeVersion_all_wildcards_agree_witness:
  "resolveRuntimeVersion env_scenario ''*.*.*.*'' world_empty =
     resolveRuntimeVersion_part000 env_scenario ''*.*.*.*'' world_empty"
  using resolveRuntimeVersion_all_wildcards_agree [of env_scenario world_empty] by simp

text \<open>
  Claim C9 as stated fails: against the index of the scenario both implementations
  return its first entry.
\<close>

theorem all_wildcards_counterexample:
  "resolveRuntimeVersion env_scenario ''*.*.*.*'' world_empty =
     (Inr ''10.65.1.2'', world_empty\<lparr>trace := [HttpGet versionsUrl]\<rparr>) \<and>
   resolveRuntimeVersion_part000 env_scenario ''*.*.*.*'' world_empty =
     (Inr ''10.65.1.2'', world_empty\<lparr>trace := [HttpGet versionsUrl]\<rparr>)"
  by (simp add: resolveRuntimeVersion_def resolveRuntimeVersion_part000_def indexLookup_def
      matchesPrefix_def takeWhile_arr_def env_scenario_def world_empty_def)

lemma indexLookup_trace:
  "\<exists>r rest. indexLookup e v pre w = (r, w\<lparr>trace := trace w @ HttpGet versionsUrl # rest\<rparr>)"
  by (cases "http_get e versionsUrl"; cases "http_get e (channelUrl v)")
     (auto simp: indexLookup_def channelLookup_def Let_def split: option.splits)

lemma first_None: "\<forall>x\<in>set xs. \<not> P x \<Longrightarrow> first xs P = None"
  by (induction xs) auto

lemma indexLookup_rejected:
  "http_get e versionsUrl = Inl err \<Longrightarrow>
   indexLookup e v pre w = (Inl err, w\<lparr>trace := trace w @ [HttpGet versionsUrl]\<rparr>)"
  by (simp add: indexLookup_def)

lemma indexLookup_no_match:
  assumes pre: "pre \<noteq> []" "list_all digits pre"
    and res: "http_get e versionsUrl = Inr res"
    and no: "\<forall>x\<in>set (split_crlf res). take (length pre) (split_char CHR ''.'' x) \<noteq> pre"
  shows "indexLookup e v pre w =
           (case http_get e (channelUrl v) of
              Inl err \<Rightarrow> Inl CouldNotResolve
            | Inr body \<Rightarrow> Inr body,
            w\<lparr>trace := trace w @ [HttpGet versionsUrl, HttpGet (channelUrl v)]\<rparr>)"
proof -
  have "first (split_crlf res) (matchesPrefix pre) = None"
    by (rule first_None) (use no in \<open>simp add: matchesPrefix_iff [OF pre]\<close>)
  then show ?thesis
    by (simp add: indexLookup_def channelLookup_def res split: sum.splits)
qed

text \<open>
  Claim C10, as amended. A numeric spec of two or three components is never returned
  unchanged by \<^verbatim>\<open>util.ts\<close>: it runs the index lookup with the whole spec as the
  prefix, so the index is always requested first. When that request fails, its error is
  the result. When the index has an entry whose leading components equal the spec, the
  first such entry is the result and nothing else is requested. When it has none, the spec
  is looked up as a channel name after all: a second request goes to the channel endpoint,
  and its answer, or the could-not-resolve error, is the result. \<^verbatim>\<open>part_000\<close> makes
  the channel request at once, and nothing else.
\<close>

theorem resolveRuntimeVersion_short_numeric:
  assumes num: "list_all digits (split_char CHR ''.'' v)"
    and len: "length (split_char CHR ''.'' v) = 2 \<or> length (split_char CHR ''.'' v) = 3"
  shows "resolveRuntimeVersion e v w = indexLookup e v (split_char CHR ''.'' v) w \<and>
    (\<exists>r rest. resolveRuntimeVersion e v w =
        (r, w\<lparr>trace := trace w @ HttpGet versionsUrl # rest\<rparr>)) \<and>
    (\<forall>err. http_get e versionsUrl = Inl err \<longrightarrow>
       resolveRuntimeVersion e v w = (Inl err, w\<lparr>trace := trace w @ [HttpGet versionsUrl]\<rparr>)) \<and>
    (\<forall>res. http_get e versionsUrl = Inr res \<and>
       (\<exists>x\<in>set (split_crlf res).
          take (length (split_char CHR ''.'' v)) (split_char CHR ''.'' x) = split_char CHR ''.'' v)
       \<longrightarrow> (\<exists>i<length (split_crlf res).
              take (length (split_char CHR ''.'' v)) (split_char CHR ''.'' (split_crlf res ! i))
                = split_char CHR ''.'' v \<and>
              (\<forall>j<i. take (length (split_char CHR ''.'' v))
                        (split_char CHR ''.'' (split_crlf res ! j)) \<noteq> split_char CHR ''.'' v) \<and>
              resolveRuntimeVersion e v w =
                (Inr (split_crlf res ! i), w\<lparr>trace := trace w @ [HttpGet versionsUrl]\<rparr>))) \<and>
    (\<forall>res. http_get e versionsUrl = Inr res \<and>
       (\<forall>x\<in>set (split_crlf res).
          take (length (split_char CHR ''.'' v)) (split_char CHR ''.'' x) \<noteq> split_char CHR ''.'' v)
       \<longrightarrow> resolveRuntimeVersion e v w =
              (case http_get e (channelUrl v) of
                 Inl err \<Rightarrow> Inl CouldNotResolve
               | Inr body \<Rightarrow> Inr body,
               w\<lparr>trace := trace w @ [HttpGet versionsUrl, HttpGet (channelUrl v)]\<rparr>)) \<and>
    resolveRuntimeVersion_part000 e v w =
      (case http_get e (channelUrl v) of
         Inl err \<Rightarrow> Inl CouldNotResolve
       | Inr body \<Rightarrow> Inr body,
       w\<lparr>trace := trace w @ [HttpGet (channelUrl v)]\<rparr>)"
proof -
  let ?sv = "split_char CHR ''.'' v"
  have ne: "?sv \<noteq> []" by (rule split_char_nonempty)
  have a: "resolveRuntimeVersion e v w = indexLookup e v ?sv w"
    using num len
    by (auto simp: resolveRuntimeVersion_def Let_def takeWhile_numeric numeric_isVersion)
  have t: "\<exists>r rest. resolveRuntimeVersion e v w =
        (r, w\<lparr>trace := trace w @ HttpGet versionsUrl # rest\<rparr>)"
    unfolding a by (rule indexLookup_trace)
  have rej: "\<forall>err. http_get e versionsUrl = Inl err \<longrightarrow>
       resolveRuntimeVersion e v w = (Inl err, w\<lparr>trace := trace w @ [HttpGet versionsUrl]\<rparr>)"
    unfolding a by (simp add: indexLookup_rejected)
  have b: "\<forall>res. http_get e versionsUrl = Inr res \<and>
       (\<exists>x\<in>set (split_crlf res). take (length ?sv) (split_char CHR ''.'' x) = ?sv)
       \<longrightarrow> (\<exists>i<length (split_crlf res).
              take (length ?sv) (split_char CHR ''.'' (split_crlf res ! i)) = ?sv \<and>
              (\<forall>j<i. take (length ?sv) (split_char CHR ''.'' (split_crlf res ! j)) \<noteq> ?sv) \<and>
              resolveRuntimeVersion e v w =
                (Inr (split_crlf res ! i), w\<lparr>trace := trace w @ [HttpGet versionsUrl]\<rparr>))"
  proof (intro allI impI)
    fix res
    assume h: "http_get e versionsUrl = Inr res \<and>
       (\<exists>x\<in>set (split_crlf res). take (length ?sv) (split_char CHR ''.'' x) = ?sv)"
    then have r: "http_get e versionsUrl = Inr res"
      and ex: "\<exists>x\<in>set (split_crlf res). take (length ?sv) (split_char CHR ''.'' x) = ?sv"
      by blast+
    from indexLookup_first [OF ne num r ex, of v]
    show "\<exists>i<length (split_crlf res).
              take (length ?sv) (split_char CHR ''.'' (split_crlf res ! i)) = ?sv \<and>
              (\<forall>j<i. take (length ?sv) (split_char CHR ''.'' (split_crlf res ! j)) \<noteq> ?sv) \<and>
              resolveRuntimeVersion e v w =
                (Inr (split_crlf res ! i), w\<lparr>trace := trace w @ [HttpGet versionsUrl]\<rparr>)"
      unfolding a by blast
  qed
  have n: "\<forall>res. http_get e versionsUrl = Inr res \<and>
       (\<forall>x\<in>set (split_crlf res). take (length ?sv) (split_char CHR ''.'' x) \<noteq> ?sv)
       \<longrightarrow> resolveRuntimeVersion e v w =
              (case http_get e (channelUrl v) of
                 Inl err \<Rightarrow> Inl CouldNotResolve
               | Inr body \<Rightarrow> Inr body,
               w\<lparr>trace := trace w @ [HttpGet versionsUrl, HttpGet (channelUrl v)]\<rparr>)"
    unfolding a using indexLookup_no_match [OF ne num] by blast
  have c: "resolveRuntimeVersion_part000 e v w =
      (case http_get e (channelUrl v) of
         Inl err \<Rightarrow> Inl CouldNotResolve
       | Inr body \<Rightarrow> Inr body,
       w\<lparr>trace := trace w @ [HttpGet (channelUrl v)]\<rparr>)"
    using len
    by (auto simp: resolveRuntimeVersion_part000_def Let_def channelLookup_def split: sum.splits)
  from a t rej b n c show ?thesis by (intro conjI)
qed

theorem resolveRuntimeVersion_short_numeric_witness:
  "list_all digits (split_char CHR ''.'' ''10.65'') \<and>
   length (split_char CHR ''.'' ''10.65'') = 2 \<and>
   resolveRuntimeVersion env_scenario ''10.65'' world_empty =
     (Inr ''10.65.1.2'', world_empty\<lparr>trace := [HttpGet versionsUrl]\<rparr>) \<and>
   resolveRuntimeVersion_part000 env_scenario ''10.65'' world_empty =
     (Inl CouldNotResolve, world_empty\<lparr>trace := [HttpGet (channelUrl ''10.65'')]\<rparr>)"
proof -
  let ?res = "''10.65.1.2'' @ [CHR 0x0D, CHR 0x0A] @ ''10.65.0.9'' @
              [CHR 0x0D, CHR 0x0A] @ ''9.0.0.0''"
  let ?sv = "split_char CHR ''.'' ''10.65''"
  have idx: "split_crlf ?res = [''10.65.1.2'', ''10.65.0.9'', ''9.0.0.0'']" by simp
  have sv: "?sv = [''10'', ''65'']" by simp
  have d: "list_all digits ?sv" by (simp add: digits_def is_digit_def)
  have l2: "length ?sv = 2" by simp
  then have l: "length ?sv = 2 \<or> length ?sv = 3" by simp
  have res: "http_get env_scenario versionsUrl = Inr ?res" by (simp add: env_scenario_def)
  have ch: "http_get env_scenario (channelUrl ''10.65'') = Inl (RequestFailed (channelUrl ''10.65''))"
    by (simp add: env_scenario_def channelUrl_def versionsUrl_def)
  have ex: "\<exists>x\<in>set (split_crlf ?res). take (length ?sv) (split_char CHR ''.'' x) = ?sv"
    unfolding idx by simp
  note shortened = resolveRuntimeVersion_short_numeric [OF d l, of env_scenario world_empty]
  from shortened have "\<exists>i<length (split_crlf ?res).
              take (length ?sv) (split_char CHR ''.'' (split_crlf ?res ! i)) = ?sv \<and>
              (\<forall>j<i. take (length ?sv) (split_char CHR ''.'' (split_crlf ?res ! j)) \<noteq> ?sv) \<and>
              resolveRuntimeVersion env_scenario ''10.65'' world_empty =
                (Inr (split_crlf ?res ! i),
                 world_empty\<lparr>trace := trace world_empty @ [HttpGet versionsUrl]\<rparr>)"
    using res ex by blast
  then obtain i where i:
    "\<forall>j<i. take (length ?sv) (split_char CHR ''.'' (split_crlf ?res ! j)) \<noteq> ?sv"
    "resolveRuntimeVersion env_scenario ''10.65'' world_empty =
        (Inr (split_crlf ?res ! i), world_empty\<lparr>trace := trace world_empty @ [HttpGet versionsUrl]\<rparr>)"
    by blast
  have "i = 0"
  proof (rule ccontr)
    assume "i \<noteq> 0"
    then have "0 < i" by simp
    with i(1) have "take (length ?sv) (split_char CHR ''.'' (split_crlf ?res ! 0)) \<noteq> ?sv"
      by blast
    then show False unfolding idx by simp
  qed
  with i(2) have u: "resolveRuntimeVersion env_scenario ''10.65'' world_empty =
     (Inr ''10.65.1.2'', world_empty\<lparr>trace := [HttpGet versionsUrl]\<rparr>)"
    unfolding idx by (simp add: world_empty_def)
  from shortened have "resolveRuntimeVersion_part000 env_scenario ''10.65'' world_empty =
      (case http_get env_scenario (channelUrl ''10.65'') of
         Inl err \<Rightarrow> Inl CouldNotResolve
       | Inr body \<Rightarrow> Inr body,
       world_empty\<lparr>trace := trace world_empty @ [HttpGet (channelUrl ''10.65'')]\<rparr>)"
    by blast
  then have p: "resolveRuntimeVersion_part000 env_scenario ''10.65'' world_empty =
     (Inl CouldNotResolve, world_empty\<lparr>trace := [HttpGet (channelUrl ''10.65'')]\<rparr>)"
    unfolding ch by (simp add: world_empty_def)
  from d l2 u p show ?thesis by (intro conjI)
qed

text \<open>
  Claim C10 as stated fails: no entry of the scenario's index starts with 10.5, and
  \<^verbatim>\<open>util.ts\<close> then asks the channel endpoint for 10.5 and rejects, returning no index
  entry.
\<close>

theorem short_numeric_no_match_counterexample:
  "list_all digits (split_char CHR ''.'' ''10.5'') \<and>
   length (split_char CHR ''.'' ''10.5'') = 2 \<and>
   http_get env_scenario versionsUrl =
     Inr (''10.65.1.2'' @ [CHR 0x0D, CHR 0x0A] @ ''10.65.0.9'' @ [CHR 0x0D, CHR 0x0A] @ ''9.0.0.0'') \<and>
   resolveRuntimeVersion env_scenario ''10.5'' world_empty =
     (Inl CouldNotResolve,
      world_empty\<lparr>trace := [HttpGet versionsUrl, HttpGet (channelUrl ''10.5'')]\<rparr>)"
  by (simp add: resolveRuntimeVersion_def indexLookup_def channelLookup_def matchesPrefix_def
      takeWhile_arr_def digits_def is_digit_def env_scenario_def world_empty_def
      channelUrl_def versionsUrl_def)

section \<open>Launching\<close>

lemma launchArgs_closed:
  "launchArgs config fb m n =
     (''--startup-url='' @ m) #
     (case additionalArgument config of None \<Rightarrow> []
      | Some a \<Rightarrow> if a = [] then [] else split_char CHR '' '' a) @
     [''--version-keyword='' @
        (if fb then (case fallbackVersion config of Some f \<Rightarrow> f | None \<Rightarrow> ''undefined'')
         else version config),
      ''--runtime-information-channel-v6='' @ n] @
     (case securityRealm config of None \<Rightarrow> []
      | Some r \<Rightarrow> if r = [] then [] else [''--security-realm='' @ r]) @
     (if verboseLogging config then [''--v=1'', ''--attach-console''] else [])"
  by (simp add: launchArgs_def Let_def split: option.splits)

lemma launch_first_ok:
  "install e (version config) w = (Inr p, w1) \<Longrightarrow>
   launch e config m n w = spawn p (launchArgs config False m n) w1"
  by (simp add: launch_def)

lemma launch_first_uncaught:
  "install e (version config) w = (Inl err, w1) \<Longrightarrow> uncaught err \<Longrightarrow>
   launch e config m n w = (Inl err, w1)"
  by (simp add: launch_def)

lemma launch_no_fallback:
  "install e (version config) w = (Inl err, w1) \<Longrightarrow> fallbackVersion config = None \<Longrightarrow>
   launch e config m n w = (Inl err, w1)"
  by (simp add: launch_def)

lemma launch_fallback_ok:
  "install e (version config) w = (Inl err, w1) \<Longrightarrow> \<not> uncaught err \<Longrightarrow>
   fallbackVersion config = Some fb \<Longrightarrow> install e fb w1 = (Inr p, w2) \<Longrightarrow>
   launch e config m n w = spawn p (launchArgs config True m n) w2"
  by (simp add: launch_def)

lemma launch_fallback_fails:
  "install e (version config) w = (Inl err, w1) \<Longrightarrow> \<not> uncaught err \<Longrightarrow>
   fallbackVersion config = Some fb \<Longrightarrow> install e fb w1 = (Inl err2, w2) \<Longrightarrow>
   launch e config m n w = (Inl err2, w2)"
  by (simp add: launch_def)

text \<open>
  Claim C5, as amended. Whenever \<^verbatim>\<open>launch\<close> spawns, the argument vector is, in
  this order: the startup URL, the extra arguments of the caller (split on spaces), the
  version keyword (of the requested version or of the fallback), the channel name, the
  security realm when one is configured, and the two verbose flags when asked for. The
  spawn is the last event.
\<close>

theorem launch_argument_order:
  assumes "launch e config m n w = (Inr (p, args), w')"
  shows "\<exists>v. (v = version config \<or> fallbackVersion config = Some v) \<and>
     args = (''--startup-url='' @ m) #
       (case additionalArgument config of None \<Rightarrow> []
        | Some a \<Rightarrow> if a = [] then [] else split_char CHR '' '' a) @
       [''--version-keyword='' @ v, ''--runtime-information-channel-v6='' @ n] @
       (case securityRealm config of None \<Rightarrow> []
        | Some r \<Rightarrow> if r = [] then [] else [''--security-realm='' @ r]) @
       (if verboseLogging config then [''--v=1'', ''--attach-console''] else []) \<and>
     (\<exists>t. trace w' = t @ [Spawn p args])"
proof -
  obtain r1 w1 where i1: "install e (version config) w = (r1, w1)" by (cases "install e (version config) w")
  show ?thesis
  proof (cases r1)
    case (Inr p1)
    with i1 assms have "args = launchArgs config False m n" "trace w' = trace w1 @ [Spawn p args]"
      by (auto simp: launch_first_ok spawn_def)
    then show ?thesis by (intro exI [of _ "version config"]) (auto simp: launchArgs_closed)
  next
    case (Inl err)
    show ?thesis
    proof (cases "uncaught err")
      case True
      with i1 Inl assms show ?thesis by (simp add: launch_first_uncaught)
    next
      case False
      show ?thesis
      proof (cases "fallbackVersion config")
        case None
        with i1 Inl assms show ?thesis by (simp add: launch_no_fallback)
      next
        case (Some fb)
        obtain r2 w2 where i2: "install e fb w1 = (r2, w2)" by (cases "install e fb w1")
        show ?thesis
        proof (cases r2)
          case (Inl err2)
          with i1 i2 \<open>r1 = Inl err\<close> False Some assms show ?thesis
            by (simp add: launch_fallback_fails)
        next
          case (Inr p2)
          with i1 i2 \<open>r1 = Inl err\<close> False Some assms
          have "args = launchArgs config True m n" "trace w' = trace w2 @ [Spawn p args]"
            by (auto simp: launch_fallback_ok spawn_def)
          then show ?thesis using Some
            by (intro exI [of _ fb]) (auto simp: launchArgs_closed)
        qed
      qed
    qed
  qed
qed

section \<open>The walk along the installation path\<close>

lemma foldl_walk_rejected:
  assumes "catchExistsError err = Inl err"
  shows "foldl (\<lambda>(p, w) next.
              case p of
                Inl err \<Rightarrow> (catchExistsError err, w)
              | Inr prev \<Rightarrow>
                  (case mkdir (fs w) (prev @ [next]) of
                     Inl err \<Rightarrow> (catchExistsError err, w)
                   | Inr root' \<Rightarrow> (Inr (prev @ [next]), w\<lparr>fs := root'\<rparr>)))
       (Inl err, w) paths = (Inl err, w)"
  using assms by (induction paths) auto

lemma catchExistsError_Inl: "catchExistsError err = Inl err' \<Longrightarrow> err' = err"
  by (cases err rule: catchExistsError.cases) auto

lemma resolveDir_Nil: "resolveDir base [] w = (Inr base, w)"
  by (simp add: resolveDir_def)

lemma resolveDir_Cons:
  "resolveDir base (s # rest) w =
     (case mkdir (fs w) (base @ [s]) of
        Inr root' \<Rightarrow> resolveDir (base @ [s]) rest (w\<lparr>fs := root'\<rparr>)
      | Inl err \<Rightarrow>
          (case catchExistsError err of
             Inr p \<Rightarrow> resolveDir p rest w
           | Inl err' \<Rightarrow> (Inl err', w)))"
proof (cases "mkdir (fs w) (base @ [s])")
  case (Inr root')
  then show ?thesis by (simp add: resolveDir_def)
next
  case (Inl err)
  show ?thesis
  proof (cases "catchExistsError err")
    case (Inr p)
    with Inl show ?thesis by (simp add: resolveDir_def)
  next
    case (Inl err')
    then have "err' = err" by (rule catchExistsError_Inl)
    with Inl \<open>mkdir (fs w) (base @ [s]) = Inl err\<close> show ?thesis
      by (simp add: resolveDir_def foldl_walk_rejected)
  qed
qed

lemma getRuntimePath_resolveDir:
  "getRuntimePath e v w =
     (case HOME e of
        None \<Rightarrow> (Inl InvalidArgType, w)
      | Some home \<Rightarrow> resolveDir home [''OpenFin'', ''Runtime'', v] w)"
  by (cases "HOME e") (simp_all add: getRuntimePath_def resolveDir_def)

lemma resolveDir_trace: "trace (snd (resolveDir base paths w)) = trace w"
proof (induction paths arbitrary: base w)
  case Nil
  then show ?case by (simp add: resolveDir_Nil)
next
  case (Cons s rest)
  then show ?case by (simp add: resolveDir_Cons split: sum.splits)
qed

lemma getRuntimePath_trace: "trace (snd (getRuntimePath e v w)) = trace w"
  by (simp add: getRuntimePath_resolveDir resolveDir_trace split: option.splits)

lemma channelLookup_spawned: "spawned (snd (channelLookup e v w)) = spawned w"
  by (simp add: channelLookup_def spawned_def split: sum.splits)

lemma indexLookup_spawned: "spawned (snd (indexLookup e v pre w)) = spawned w"
proof -
  have "spawned (snd (channelLookup e v (w\<lparr>trace := trace w @ [HttpGet versionsUrl]\<rparr>))) = spawned w"
    by (simp add: channelLookup_spawned) (simp add: spawned_def)
  then show ?thesis
    by (simp add: indexLookup_def Let_def split: sum.splits option.splits) (simp add: spawned_def)
qed

lemma resolveRuntimeVersion_spawned: "spawned (snd (resolveRuntimeVersion e v w)) = spawned w"
  by (simp add: resolveRuntimeVersion_def Let_def channelLookup_spawned indexLookup_spawned)

lemma resolveDir_spawned: "spawned (snd (resolveDir base paths w)) = spawned w"
  by (simp add: spawned_def resolveDir_trace)

lemma getRuntimePath_spawned: "spawned (snd (getRuntimePath e v w)) = spawned w"
  by (simp add: spawned_def getRuntimePath_trace)

lemma chmod_spawned: "spawned (snd (chmod p mode w)) = spawned w"
  by (simp add: chmod_def spawned_def split: sum.splits)

lemma downloadFile_spawned: "spawned (snd (downloadFile e url file w)) = spawned w"
  by (simp add: downloadFile_def Let_def spawned_def split: prod.splits sum.splits)

lemma unzip_spawned: "spawned (snd (unzip file dest w)) = spawned w"
  by (simp add: unzip_def Let_def spawned_def
      split: prod.splits sum.splits node.splits content.splits bool.splits)

lemma download_unfold:
  assumes s1: "rmDir folder False (fs w) = (r1, root1)"
    and r2: "root2 = (case mkdir root1 (folder @ [''tmp'']) of Inl err \<Rightarrow> root1 | Inr r \<Rightarrow> r)"
    and s3: "downloadFile e (downloadUrl v) (folder @ [''tmp'', ''tmp'']) (w\<lparr>fs := root2\<rparr>) = (r3, w3)"
    and s4: "unzip (folder @ [''tmp'', ''tmp'']) folder w3 = (r4, w4)"
    and s5: "rmDir (folder @ [''tmp'']) True (fs w4) = (r5, root5)"
  shows "download e v folder w =
     (case r1 of Inl err \<Rightarrow> (Inl err, w\<lparr>fs := root1\<rparr>)
      | Inr u \<Rightarrow>
        (case r3 of Inl err \<Rightarrow> (Inl err, w3)
         | Inr u \<Rightarrow>
           (case r4 of Inl err \<Rightarrow> (Inl err, w4)
            | Inr u \<Rightarrow>
              (case r5 of Inl err \<Rightarrow> (Inl err, w4\<lparr>fs := root5\<rparr>)
               | Inr u \<Rightarrow> (Inr folder, w4\<lparr>fs := root5\<rparr>)))))"
proof (cases r1)
  case (Inl err)
  with s1 show ?thesis by (simp add: download_def)
next
  case (Inr u)
  have "download e v folder w =
     (case downloadFile e (downloadUrl v) (folder @ [''tmp'', ''tmp'']) (w\<lparr>fs := root2\<rparr>) of
        (Inl err, w3) \<Rightarrow> (Inl err, w3)
      | (Inr u, w3) \<Rightarrow>
          (case unzip (folder @ [''tmp'', ''tmp'']) folder w3 of
             (Inl err, w4) \<Rightarrow> (Inl err, w4)
           | (Inr u, w4) \<Rightarrow>
               (case rmDir (folder @ [''tmp'']) True (fs w4) of
                  (Inl err, root5) \<Rightarrow> (Inl err, w4\<lparr>fs := root5\<rparr>)
                | (Inr u, root5) \<Rightarrow> (Inr folder, w4\<lparr>fs := root5\<rparr>))))"
    using s1 Inr unfolding download_def Let_def r2 by simp
  also have "\<dots> = (case r3 of Inl err \<Rightarrow> (Inl err, w3)
         | Inr u \<Rightarrow>
           (case r4 of Inl err \<Rightarrow> (Inl err, w4)
            | Inr u \<Rightarrow>
              (case r5 of Inl err \<Rightarrow> (Inl err, w4\<lparr>fs := root5\<rparr>)
               | Inr u \<Rightarrow> (Inr folder, w4\<lparr>fs := root5\<rparr>))))"
    unfolding s3 using s4 s5 by (simp split: sum.splits)
  finally show ?thesis using Inr by simp
qed

lemma download_spawned: "spawned (snd (download e v folder w)) = spawned w"
proof -
  obtain r1 root1 where s1: "rmDir folder False (fs w) = (r1, root1)"
    by (cases "rmDir folder False (fs w)")
  define root2 where
    "root2 = (case mkdir root1 (folder @ [''tmp'']) of Inl err \<Rightarrow> root1 | Inr r \<Rightarrow> r)"
  obtain r3 w3 where s3:
    "downloadFile e (downloadUrl v) (folder @ [''tmp'', ''tmp'']) (w\<lparr>fs := root2\<rparr>) = (r3, w3)"
    by (cases "downloadFile e (downloadUrl v) (folder @ [''tmp'', ''tmp'']) (w\<lparr>fs := root2\<rparr>)")
  obtain r4 w4 where s4: "unzip (folder @ [''tmp'', ''tmp'']) folder w3 = (r4, w4)"
    by (cases "unzip (folder @ [''tmp'', ''tmp'']) folder w3")
  obtain r5 root5 where s5: "rmDir (folder @ [''tmp'']) True (fs w4) = (r5, root5)"
    by (cases "rmDir (folder @ [''tmp'']) True (fs w4)")
  have w3: "spawned w3 = spawned w"
    using downloadFile_spawned [of e "downloadUrl v" "folder @ [''tmp'', ''tmp'']" "w\<lparr>fs := root2\<rparr>"] s3
    by (simp add: spawned_def)
  have w4: "spawned w4 = spawned w"
    using unzip_spawned [of "folder @ [''tmp'', ''tmp'']" folder w3] s4 w3 by simp
  show ?thesis
    unfolding download_unfold [OF s1 root2_def s3 s4 s5]
    using w3 w4 by (simp add: spawned_def split: sum.splits)
qed

lemma install_spawned: "spawned (snd (install e v w)) = spawned w"
proof -
  obtain r1 w1 where s1: "resolveRuntimeVersion e v w = (r1, w1)"
    by (cases "resolveRuntimeVersion e v w")
  then have w1: "spawned w1 = spawned w" using resolveRuntimeVersion_spawned [of e v w] by simp
  show ?thesis
  proof (cases r1)
    case (Inl err)
    with s1 w1 show ?thesis by (simp add: install_def)
  next
    case (Inr ver)
    obtain r2 w2 where s2: "getRuntimePath e ver w1 = (r2, w2)"
      by (cases "getRuntimePath e ver w1")
    then have w2: "spawned w2 = spawned w" using getRuntimePath_spawned [of e ver w1] w1 by simp
    show ?thesis
    proof (cases r2)
      case (Inl err)
      with s1 s2 \<open>r1 = Inr ver\<close> w2 show ?thesis by (simp add: install_def)
    next
      case (Inr folder)
      have c: "spawned (snd (chmod (folder @ binaryPath) 493 w2)) = spawned w"
        using chmod_spawned w2 by simp
      have d: "spawned (snd (download e ver folder w2)) = spawned w"
        using download_spawned w2 by simp
      from s1 s2 \<open>r1 = Inr ver\<close> Inr c d show ?thesis
        by (auto simp: install_def Let_def split: sum.splits prod.splits)
    qed
  qed
qed

text \<open>
  Claim C4. With a fallback configured, when installing the requested version is rejected
  and installing the fallback then succeeds, \<^verbatim>\<open>launch\<close> spawns the binary the fallback
  install returned, and the version keyword it passes is the fallback version.
\<close>

theorem launch_fallback_version_keyword:
  assumes fb: "fallbackVersion config = Some fallback"
    and first: "install e (version config) w = (Inl err, w1)" "\<not> uncaught err"
    and second: "install e fallback w1 = (Inr runtimePath, w2)"
  shows "\<exists>args. launch e config m n w =
             (Inr (runtimePath, args), w2\<lparr>trace := trace w2 @ [Spawn runtimePath args]\<rparr>) \<and>
     args = (''--startup-url='' @ m) #
       (case additionalArgument config of None \<Rightarrow> []
        | Some a \<Rightarrow> if a = [] then [] else split_char CHR '' '' a) @
       [''--version-keyword='' @ fallback, ''--runtime-information-channel-v6='' @ n] @
       (case securityRealm config of None \<Rightarrow> []
        | Some r \<Rightarrow> if r = [] then [] else [''--security-realm='' @ r]) @
       (if verboseLogging config then [''--v=1'', ''--attach-console''] else [])"
  using launch_fallback_ok [OF first fb second, of m n] fb
  by (simp add: spawn_def launchArgs_closed)

theorem launch_fallback_version_keyword_witness:
  "fst (launch env_scenario cfg_fallback ''app.json'' ''pipe1'' world_home) =
     Inr ([''Users'', ''dev'', ''OpenFin'', ''Runtime'', ''10.65.1.2'',
           ''OpenFin.app'', ''Contents'', ''MacOS'', ''OpenFin''],
          [''--startup-url=app.json'', ''--version-keyword=10.65.1.2'',
           ''--runtime-information-channel-v6=pipe1''])"
proof -
  let ?w1 = "world_home\<lparr>trace := [HttpGet (channelUrl ''bad'')]\<rparr>"
  let ?p = "[''Users'', ''dev'', ''OpenFin'', ''Runtime'', ''10.65.1.2'',
             ''OpenFin.app'', ''Contents'', ''MacOS'', ''OpenFin'']"
  have fb: "fallbackVersion cfg_fallback = Some ''10.65.1.2''" by (simp add: cfg_fallback_def)
  have "install env_scenario ''bad'' world_home = (Inl CouldNotResolve, ?w1)" by code_simp
  then have first: "install env_scenario (version cfg_fallback) world_home = (Inl CouldNotResolve, ?w1)"
    by (simp add: cfg_fallback_def)
  have nu: "\<not> uncaught CouldNotResolve" by simp
  have "fst (install env_scenario ''10.65.1.2'' ?w1) = Inr ?p" by code_simp
  then have second: "install env_scenario ''10.65.1.2'' ?w1 =
      (Inr ?p, snd (install env_scenario ''10.65.1.2'' ?w1))"
    by (metis prod.collapse)
  from launch_fallback_version_keyword [OF fb first nu second, of "''app.json''" "''pipe1''"]
  show ?thesis by (auto simp: cfg_fallback_def)
qed

text \<open>
  Claim C6, as amended. When installing the requested version fails: without a fallback
  \<^verbatim>\<open>launch\<close> ends with that error in the world the install left; with a fallback whose
  install is rejected too, it ends with the error of the fallback install, in the world
  that second install left, so nothing is tried after it. No process is spawned in either
  case.
\<close>

theorem launch_install_failure:
  assumes first: "install e (version config) w = (Inl err, w1)"
  shows "(fallbackVersion config = None \<longrightarrow> launch e config m n w = (Inl err, w1)) \<and>
    (\<forall>fallback err2 w2.
        fallbackVersion config = Some fallback \<and> \<not> uncaught err \<and>
        install e fallback w1 = (Inl err2, w2) \<longrightarrow>
        launch e config m n w = (Inl err2, w2) \<and> spawned w2 = spawned w) \<and>
    spawned w1 = spawned w"
proof -
  have w1: "spawned w1 = spawned w" using install_spawned [of e "version config" w] first by simp
  have "spawned w2 = spawned w" if "install e fallback w1 = (Inl err2, w2)" for fallback err2 w2
    using install_spawned [of e fallback w1] that w1 by simp
  then show ?thesis
    using w1 launch_no_fallback [OF first] launch_fallback_fails [OF first] by blast
qed

theorem launch_install_failure_witness:
  "fst (launch env_scenario cfg_bad_fallback ''app.json'' ''pipe1'' world_home) =
     Inl (CouldNotInstall ''9.0.0.0'' ''9.0.0.0'') \<and>
   snd (launch env_scenario cfg_bad_fallback ''app.json'' ''pipe1'' world_home) =
     snd (install env_scenario ''9.0.0.0'' (world_home\<lparr>trace := [HttpGet (channelUrl ''bad'')]\<rparr>)) \<and>
   spawned (snd (launch env_scenario cfg_bad_fallback ''app.json'' ''pipe1'' world_home)) = []"
proof -
  let ?w1 = "world_home\<lparr>trace := [HttpGet (channelUrl ''bad'')]\<rparr>"
  have "install env_scenario ''bad'' world_home = (Inl CouldNotResolve, ?w1)" by code_simp
  then have first: "install env_scenario (version cfg_bad_fallback) world_home = (Inl CouldNotResolve, ?w1)"
    by (simp add: cfg_bad_fallback_def)
  have "fst (install env_scenario ''9.0.0.0'' ?w1) = Inl (CouldNotInstall ''9.0.0.0'' ''9.0.0.0'')"
    by code_simp
  then have second: "install env_scenario ''9.0.0.0'' ?w1 =
      (Inl (CouldNotInstall ''9.0.0.0'' ''9.0.0.0''), snd (install env_scenario ''9.0.0.0'' ?w1))"
    by (metis prod.collapse)
  have fb: "fallbackVersion cfg_bad_fallback = Some ''9.0.0.0''" by (simp add: cfg_bad_fallback_def)
  have sp: "spawned world_home = []" by (simp add: spawned_def world_home_def)
  from launch_install_failure [OF first, of "''app.json''" "''pipe1''"] fb second sp
  show ?thesis by auto
qed

text \<open>
  Claim C6 as stated fails: the requested version is rejected with one error, the
  fallback with another, and \<^verbatim>\<open>launch\<close> rejects with the second.
\<close>

theorem fallback_error_counterexample:
  "fst (install env_scenario (version cfg_bad_fallback) world_home) = Inl CouldNotResolve \<and>
   fst (launch env_scenario cfg_bad_fallback ''app.json'' ''pipe1'' world_home) =
     Inl (CouldNotInstall ''9.0.0.0'' ''9.0.0.0'')"
  by code_simp

theorem launch_argument_order_witness:
  "fst (launch env_scenario cfg_extra ''app.json'' ''pipe1'' world_home) =
     Inr ([''Users'', ''dev'', ''OpenFin'', ''Runtime'', ''10.65.1.2'',
           ''OpenFin.app'', ''Contents'', ''MacOS'', ''OpenFin''],
          [''--startup-url=app.json'', ''--foo'', ''--bar'', ''--version-keyword=10.65.1.2'',
           ''--runtime-information-channel-v6=pipe1'', ''--security-realm=realm'',
           ''--v=1'', ''--attach-console''])"
proof -
  let ?p = "[''Users'', ''dev'', ''OpenFin'', ''Runtime'', ''10.65.1.2'',
             ''OpenFin.app'', ''Contents'', ''MacOS'', ''OpenFin'']"
  let ?L = "launch env_scenario cfg_extra ''app.json'' ''pipe1'' world_home"
  have p: "map_sum id fst (fst ?L) = Inr ?p" by code_simp
  then obtain args where a: "fst ?L = Inr (?p, args)" by (cases "fst ?L") auto
  then have "?L = (Inr (?p, args), snd ?L)" by (metis prod.collapse)
  from launch_argument_order [OF this] show ?thesis unfolding a
    by (auto simp: cfg_extra_def)
qed

text \<open>
  Claim C5 as stated fails: with extra arguments configured, the startup URL comes first
  and the extra arguments after it.
\<close>

theorem extra_arguments_counterexample:
  "additionalArgument cfg_extra = Some ''--foo --bar'' \<and>
   fst (launch env_scenario cfg_extra ''app.json'' ''pipe1'' world_installed) =
     Inr ([''Users'', ''dev'', ''OpenFin'', ''Runtime'', ''10.65.1.2'',
           ''OpenFin.app'', ''Contents'', ''MacOS'', ''OpenFin''],
          [''--startup-url=app.json'', ''--foo'', ''--bar'', ''--version-keyword=10.65.1.2'',
           ''--runtime-information-channel-v6=pipe1'', ''--security-realm=realm'',
           ''--v=1'', ''--attach-console''])"
  by code_simp

section \<open>Facts about the file system\<close>

lemma lookup_append:
  "lookup n (p @ q) = (case lookup n p of Inl c \<Rightarrow> Inl c | Inr m \<Rightarrow> lookup m q)"
proof (induction n p rule: lookup.induct)
  case (1 n)
  then show ?case by simp
next
  case (2 m c s p)
  then show ?case by simp
next
  case (3 es s p)
  then show ?case by (cases "map_of es s") auto
qed

lemma lookup_snoc:
  "lookup n (p @ [s]) =
     (case lookup n p of
        Inl c \<Rightarrow> Inl c
      | Inr (File m c) \<Rightarrow> Inl ENOTDIR
      | Inr (Dir es) \<Rightarrow> (case map_of es s of None \<Rightarrow> Inl ENOENT | Some x \<Rightarrow> Inr x))"
  by (simp add: lookup_append split: sum.splits node.splits option.splits)

lemma lookup_prefix_dir:
  assumes "lookup n (p @ q) = Inr x" "q \<noteq> []"
  shows "\<exists>es. lookup n p = Inr (Dir es)"
proof -
  obtain s r where q: "q = s # r" using assms(2) by (cases q) auto
  from assms(1) show ?thesis unfolding q lookup_append
    by (cases "lookup n p") (auto split: node.splits elim: lookup.elims)
qed

lemma map_of_update [simp]: "map_of (AList.update k v al) = (map_of al)(k \<mapsto> v)"
  by (rule update_conv')

lemma map_of_delete [simp]: "map_of (AList.delete k al) = (map_of al)(k := None)"
  by (rule delete_conv')

lemma lookup_alter_parallel:
  "p \<parallel> q \<Longrightarrow> lookup (alter p f n) q = lookup n q"
proof (induction p f n arbitrary: q rule: alter.induct)
  case (1 f n)
  then show ?case by simp
next
  case (2 s p f m c)
  then show ?case by simp
next
  case (3 s f es)
  then show ?case by (cases q) (auto split: option.splits)
next
  case (4 s t p f es)
  show ?case
  proof (cases q)
    case Nil
    with 4 show ?thesis by simp
  next
    case (Cons a r)
    show ?thesis
    proof (cases "map_of es s")
      case None
      then show ?thesis by simp
    next
      case (Some x)
      show ?thesis
      proof (cases "a = s")
        case True
        with 4(2) Cons have "(t # p) \<parallel> r" by (simp add: parallel_def)
        with 4(1) [OF Some] Some Cons True show ?thesis by simp
      next
        case False
        with Some Cons show ?thesis by simp
      qed
    qed
  qed
qed

lemma lookup_alter_same:
  "lookup n p = Inr (Dir es) \<Longrightarrow>
   lookup (alter (p @ [s]) f n) (p @ s # r) =
     (case f (map_of es s) of None \<Rightarrow> Inl ENOENT | Some x \<Rightarrow> lookup x r)"
proof (induction p arbitrary: n)
  case Nil
  then show ?case by (auto split: option.splits)
next
  case (Cons a p)
  then obtain ds x where n: "n = Dir ds" "map_of ds a = Some x" "lookup x p = Inr (Dir es)"
    by (cases n) (auto split: option.splits)
  obtain t q where pq: "p @ [s] = t # q" by (cases p) auto
  have "alter ((a # p) @ [s]) f n = Dir (AList.update a (alter (p @ [s]) f x) ds)"
    using n pq by simp
  with Cons.IH [OF n(3)] show ?case by simp
qed

lemma lookup_alter_above:
  "lookup n q = Inr (Dir es) \<Longrightarrow> \<exists>es'. lookup (alter (q @ s # r) f n) q = Inr (Dir es')"
proof (induction q arbitrary: n)
  case Nil
  then show ?case by (cases r) (auto split: option.splits)
next
  case (Cons a q)
  then obtain ds x where n: "n = Dir ds" "map_of ds a = Some x" "lookup x q = Inr (Dir es)"
    by (cases n) (auto split: option.splits)
  obtain t u where pq: "q @ s # r = t # u" by (cases q) auto
  have "alter ((a # q) @ s # r) f n = Dir (AList.update a (alter (q @ s # r) f x) ds)"
    using n pq by simp
  with Cons.IH [OF n(3)] show ?case by simp
qed

lemma mkdir_snoc:
  "mkdir root (p @ [s]) =
     (case lookup root p of
        Inl c \<Rightarrow> Inl (Errno c (p @ [s]))
      | Inr (File m c) \<Rightarrow> Inl (Errno ENOTDIR (p @ [s]))
      | Inr (Dir es) \<Rightarrow>
          (case map_of es s of
             Some n \<Rightarrow> Inl (Errno EEXIST (p @ [s]))
           | None \<Rightarrow> Inr (alter (p @ [s]) (\<lambda>_. Some (Dir [])) root)))"
  by (simp add: mkdir_def split: sum.splits node.splits)

lemma mkdir_exists:
  "lookup root (p @ [s]) = Inr n \<Longrightarrow> mkdir root (p @ [s]) = Inl (Errno EEXIST (p @ [s]))"
  by (auto simp: mkdir_snoc lookup_snoc split: sum.splits node.splits option.splits)

lemma mkdir_EEXIST_path:
  "mkdir root q = Inl (Errno EEXIST p) \<Longrightarrow> p = q"
  by (auto simp: mkdir_def split: if_splits sum.splits node.splits option.splits)

lemma mkdir_new:
  assumes "lookup root p = Inr (Dir es)" "lookup root (p @ [s]) = Inl ENOENT"
  shows "\<exists>root'. mkdir root (p @ [s]) = Inr root' \<and> lookup root' (p @ [s]) = Inr (Dir [])"
proof -
  from assms have none: "map_of es s = None" by (auto simp: lookup_snoc split: option.splits)
  with assms(1) have "mkdir root (p @ [s]) = Inr (alter (p @ [s]) (\<lambda>_. Some (Dir [])) root)"
    by (simp add: mkdir_snoc)
  moreover have "lookup (alter (p @ [s]) (\<lambda>_. Some (Dir [])) root) (p @ [s]) = Inr (Dir [])"
    using lookup_alter_same [OF assms(1), of s "\<lambda>_. Some (Dir [])" "[]"] by simp
  ultimately show ?thesis by simp
qed

lemma resolveDir_adopt:
  "lookup (fs w) (base @ pre) = Inr (Dir es) \<Longrightarrow>
   resolveDir base (pre @ rest) w = resolveDir (base @ pre) rest w"
proof (induction pre arbitrary: base)
  case Nil
  then show ?case by simp
next
  case (Cons s pre)
  from Cons.prems have l: "lookup (fs w) ((base @ [s]) @ pre) = Inr (Dir es)" by simp
  have "\<exists>n. lookup (fs w) (base @ [s]) = Inr n"
  proof (cases pre)
    case Nil
    with l show ?thesis by simp
  next
    case (Cons a list)
    then have "pre \<noteq> []" by simp
    from lookup_prefix_dir [OF l this] show ?thesis by blast
  qed
  then obtain n where "lookup (fs w) (base @ [s]) = Inr n" ..
  then have "mkdir (fs w) (base @ [s]) = Inl (Errno EEXIST (base @ [s]))" by (rule mkdir_exists)
  then have "resolveDir base ((s # pre) @ rest) w = resolveDir (base @ [s]) (pre @ rest) w"
    by (simp add: resolveDir_Cons)
  with Cons.IH [OF l] show ?case by simp
qed

lemma resolveDir_create:
  "lookup (fs w) base = Inr (Dir es) \<Longrightarrow>
   (paths \<noteq> [] \<longrightarrow> lookup (fs w) (base @ [hd paths]) = Inl ENOENT) \<Longrightarrow>
   \<exists>w'. resolveDir base paths w = (Inr (base @ paths), w') \<and> trace w' = trace w \<and>
        (\<exists>es'. lookup (fs w') (base @ paths) = Inr (Dir es'))"
proof (induction paths arbitrary: base w es)
  case Nil
  then show ?case by (simp add: resolveDir_Nil)
next
  case (Cons s rest)
  from Cons.prems have "lookup (fs w) (base @ [s]) = Inl ENOENT" by simp
  from mkdir_new [OF Cons.prems(1) this] obtain root' where
    m: "mkdir (fs w) (base @ [s]) = Inr root'" and l: "lookup root' (base @ [s]) = Inr (Dir [])"
    by blast
  let ?w = "w\<lparr>fs := root'\<rparr>"
  have a: "lookup (fs ?w) (base @ [s]) = Inr (Dir [])" using l by simp
  have b: "rest \<noteq> [] \<longrightarrow> lookup (fs ?w) ((base @ [s]) @ [hd rest]) = Inl ENOENT"
    using l lookup_snoc [of root' "base @ [s]" "hd rest"] by simp
  from Cons.IH [OF a b] obtain w' where
    "resolveDir (base @ [s]) rest ?w = (Inr ((base @ [s]) @ rest), w')" "trace w' = trace ?w"
    "\<exists>es'. lookup (fs w') ((base @ [s]) @ rest) = Inr (Dir es')" by blast
  with m show ?case by (simp add: resolveDir_Cons)
qed

text \<open>
  Claim C8. In the walk of \<^verbatim>\<open>resolveDir\<close>, a \<^verbatim>\<open>mkdir\<close> that fails with
  \<open>EEXIST\<close> is taken as success and the walk goes on from that path; any other failure
  is the result of the whole walk. So when the first \<open>k\<close> segments are directories
  already and the next one is missing, the walk succeeds with the whole path, which is a
  directory afterwards. \<^verbatim>\<open>getRuntimePath\<close> is the same walk from \<^verbatim>\<open>HOME\<close>.
\<close>

theorem resolveDir_create_or_adopt:
  "(\<forall>p. mkdir (fs w) (base @ [s]) = Inl (Errno EEXIST p) \<longrightarrow>
        p = base @ [s] \<and> resolveDir base (s # rest) w = resolveDir p rest w) \<and>
   (\<forall>err. mkdir (fs w) (base @ [s]) = Inl err \<and> (\<forall>p. err \<noteq> Errno EEXIST p) \<longrightarrow>
        resolveDir base (s # rest) w = (Inl err, w)) \<and>
   (\<forall>k es. k \<le> length paths \<and> lookup (fs w) (base @ take k paths) = Inr (Dir es) \<and>
        (k < length paths \<longrightarrow> lookup (fs w) (base @ take (Suc k) paths) = Inl ENOENT) \<longrightarrow>
        (\<exists>w'. resolveDir base paths w = (Inr (base @ paths), w') \<and> trace w' = trace w \<and>
              (\<exists>es'. lookup (fs w') (base @ paths) = Inr (Dir es')))) \<and>
   getRuntimePath e v w =
     (case HOME e of
        None \<Rightarrow> (Inl InvalidArgType, w)
      | Some home \<Rightarrow> resolveDir home [''OpenFin'', ''Runtime'', v] w)"
proof (intro conjI allI impI)
  fix p assume a: "mkdir (fs w) (base @ [s]) = Inl (Errno EEXIST p)"
  then show "p = base @ [s]" by (rule mkdir_EEXIST_path)
  from a show "resolveDir base (s # rest) w = resolveDir p rest w"
    by (simp add: resolveDir_Cons)
next
  fix err assume a: "mkdir (fs w) (base @ [s]) = Inl err \<and> (\<forall>p. err \<noteq> Errno EEXIST p)"
  then have "catchExistsError err = Inl err"
    by (cases err rule: catchExistsError.cases) auto
  with a show "resolveDir base (s # rest) w = (Inl err, w)" by (simp add: resolveDir_Cons)
next
  fix k es
  assume a: "k \<le> length paths \<and> lookup (fs w) (base @ take k paths) = Inr (Dir es) \<and>
        (k < length paths \<longrightarrow> lookup (fs w) (base @ take (Suc k) paths) = Inl ENOENT)"
  let ?pre = "take k paths" and ?rest = "drop k paths"
  have split: "paths = ?pre @ ?rest" by simp
  have adopt: "resolveDir base paths w = resolveDir (base @ ?pre) ?rest w"
    using resolveDir_adopt [of w base ?pre es ?rest] a by simp
  have next_missing: "?rest \<noteq> [] \<longrightarrow> lookup (fs w) ((base @ ?pre) @ [hd ?rest]) = Inl ENOENT"
  proof
    assume "?rest \<noteq> []"
    then have k: "k < length paths" by simp
    then have "take (Suc k) paths = ?pre @ [hd ?rest]"
      by (simp add: take_Suc_conv_app_nth hd_drop_conv_nth)
    with a k show "lookup (fs w) ((base @ ?pre) @ [hd ?rest]) = Inl ENOENT" by simp
  qed
  from resolveDir_create [of w "base @ ?pre" es ?rest] a next_missing
  obtain w' where "resolveDir (base @ ?pre) ?rest w = (Inr ((base @ ?pre) @ ?rest), w')"
    "trace w' = trace w" "\<exists>es'. lookup (fs w') ((base @ ?pre) @ ?rest) = Inr (Dir es')"
    by blast
  with adopt show "\<exists>w'. resolveDir base paths w = (Inr (base @ paths), w') \<and> trace w' = trace w \<and>
              (\<exists>es'. lookup (fs w') (base @ paths) = Inr (Dir es'))"
    by simp
next
  show "getRuntimePath e v w =
     (case HOME e of
        None \<Rightarrow> (Inl InvalidArgType, w)
      | Some home \<Rightarrow> resolveDir home [''OpenFin'', ''Runtime'', v] w)"
    by (rule getRuntimePath_resolveDir)
qed

theorem resolveDir_create_or_adopt_witness:
  "fst (resolveDir [''Users'', ''dev''] [''OpenFin'', ''Runtime'', ''10.65.1.2'', ''cache''] world_stale) =
     Inr [''Users'', ''dev'', ''OpenFin'', ''Runtime'', ''10.65.1.2'', ''cache''] \<and>
   fst (getRuntimePath env_scenario ''10.65.1.2'' world_stale) =
     Inr [''Users'', ''dev'', ''OpenFin'', ''Runtime'', ''10.65.1.2'']"
proof -
  let ?base = "[''Users'', ''dev'']"
  let ?paths = "[''OpenFin'', ''Runtime'', ''10.65.1.2'', ''cache'']"
  have l: "lookup (fs world_stale) (?base @ take 3 ?paths) = Inr (Dir [(''notes.txt'', File 420 Plain)])"
    by code_simp
  have m: "lookup (fs world_stale) (?base @ take (Suc 3) ?paths) = Inl ENOENT" by code_simp
  have g: "fst (resolveDir ?base [''OpenFin'', ''Runtime'', ''10.65.1.2''] world_stale) =
     Inr [''Users'', ''dev'', ''OpenFin'', ''Runtime'', ''10.65.1.2'']" by code_simp
  have h: "HOME env_scenario = Some ?base" by (simp add: env_scenario_def)
  have third: "\<forall>k es. k \<le> length ?paths \<and>
        lookup (fs world_stale) (?base @ take k ?paths) = Inr (Dir es) \<and>
        (k < length ?paths \<longrightarrow>
           lookup (fs world_stale) (?base @ take (Suc k) ?paths) = Inl ENOENT) \<longrightarrow>
        (\<exists>w'. resolveDir ?base ?paths world_stale = (Inr (?base @ ?paths), w') \<and>
              trace w' = trace world_stale \<and>
              (\<exists>es'. lookup (fs w') (?base @ ?paths) = Inr (Dir es')))"
    and gr: "getRuntimePath env_scenario ''10.65.1.2'' world_stale =
       (case HOME env_scenario of
          None \<Rightarrow> (Inl InvalidArgType, world_stale)
        | Some home \<Rightarrow> resolveDir home [''OpenFin'', ''Runtime'', ''10.65.1.2''] world_stale)"
    using resolveDir_create_or_adopt
      [of world_stale ?base "''x''" "[]" ?paths env_scenario "''10.65.1.2''"]
    by blast+
  have "(3::nat) \<le> length ?paths" by simp
  with third [rule_format, of 3 "[(''notes.txt'', File 420 Plain)]"] l m
  have "\<exists>w'. resolveDir ?base ?paths world_stale = (Inr (?base @ ?paths), w')" by blast
  with g gr h show ?thesis by auto
qed


section \<open>Removing a directory empties it\<close>

lemma parallel_snoc_left: "p \<parallel> q \<Longrightarrow> (p @ r) \<parallel> q"
  using parallel_append [of p q r "[]"] by simp

lemma parallel_siblings: "f \<noteq> g \<Longrightarrow> (p @ f # r) \<parallel> (p @ g # r')"
  by (simp add: parallel_def)

lemma parallel_siblings1: "f \<noteq> g \<Longrightarrow> (p @ [f]) \<parallel> (p @ [g])"
  by (simp add: parallel_def)

lemma strict_prefix_snoc_decomp:
  "strict_prefix q p \<Longrightarrow> \<exists>s r. p = q @ s # r"
  by (metis strict_prefixE')

lemma size_map_of: "map_of es s = Some n \<Longrightarrow> size n < size (Dir es)"
proof (induction es)
  case Nil
  then show ?case by simp
next
  case (Cons a es)
  then show ?case by (cases a) (auto split: if_splits)
qed

lemma lookup_size: "lookup n p = Inr x \<Longrightarrow> size x \<le> size n"
proof (induction n p rule: lookup.induct)
  case (1 n)
  then show ?case by simp
next
  case (2 m c s p)
  then show ?case by simp
next
  case (3 es s p)
  then obtain y where y: "map_of es s = Some y" "lookup y p = Inr x"
    by (auto split: option.splits)
  with 3 have "size x \<le> size y" by simp
  with size_map_of [OF y(1)] show ?case by simp
qed

lemma alter_remove:
  assumes "lookup root p = Inr x" "p \<noteq> []"
  shows "removedAt p root (alter p (\<lambda>_. None) root)"
proof -
  obtain p0 s where p: "p = p0 @ [s]" using assms(2) by (metis rev_exhaust)
  from assms(1) obtain es where d: "lookup root p0 = Inr (Dir es)"
    unfolding p using lookup_prefix_dir [of root p0 "[s]" x] by auto
  have a: "lookup (alter p (\<lambda>_. None) root) p = Inl ENOENT"
    using lookup_alter_same [OF d, of s "\<lambda>_. None" "[]"] by (simp add: p)
  have c: "\<exists>es'. lookup (alter p (\<lambda>_. None) root) q = Inr (Dir es')"
    if "strict_prefix q p" "lookup root q = Inr (Dir ds)" for q ds
  proof -
    from strict_prefix_snoc_decomp [OF that(1)] obtain t r where "p = q @ t # r" by blast
    with lookup_alter_above [OF that(2), of t r "\<lambda>_. None"] show ?thesis by simp
  qed
  show ?thesis unfolding removedAt_def using a c lookup_alter_parallel by blast
qed

lemma promiseMap_remove_all:
  assumes step: "\<And>f r n. lookup r (dp @ [f]) = Inr n \<Longrightarrow> size n < k \<Longrightarrow>
      \<exists>r1. body f r = Some (Inr (), r1) \<and> removedAt (dp @ [f]) r r1"
  shows "distinct names \<Longrightarrow> lookup root dp = Inr (Dir es) \<Longrightarrow>
    \<forall>f\<in>set names. \<exists>n. lookup root (dp @ [f]) = Inr n \<and> size n < k \<Longrightarrow>
    \<exists>root' es'. promiseMap names body root = Some (Inr (), root') \<and>
       lookup root' dp = Inr (Dir es') \<and>
       (\<forall>f\<in>set names. lookup root' (dp @ [f]) = Inl ENOENT) \<and>
       (\<forall>q. (\<forall>f\<in>set names. (dp @ [f]) \<parallel> q) \<longrightarrow> lookup root' q = lookup root q) \<and>
       (\<forall>q ds. strict_prefix q dp \<longrightarrow> lookup root q = Inr (Dir ds) \<longrightarrow>
          (\<exists>ds'. lookup root' q = Inr (Dir ds')))"
proof (induction names arbitrary: root es)
  case Nil
  then show ?case by simp
next
  case (Cons f rest)
  from Cons.prems(3) obtain n where n: "lookup root (dp @ [f]) = Inr n" "size n < k" by auto
  from step [OF n] obtain r1 where r1: "body f root = Some (Inr (), r1)"
    and rem: "removedAt (dp @ [f]) root r1" by blast
  from rem have gone: "lookup r1 (dp @ [f]) = Inl ENOENT"
    and par: "\<And>q. (dp @ [f]) \<parallel> q \<Longrightarrow> lookup r1 q = lookup root q"
    and above: "\<And>q ds. strict_prefix q (dp @ [f]) \<Longrightarrow> lookup root q = Inr (Dir ds) \<Longrightarrow>
        \<exists>ds'. lookup r1 q = Inr (Dir ds')"
    unfolding removedAt_def by blast+
  have "strict_prefix dp (dp @ [f])" by (simp add: strict_prefix_def)
  from above [OF this Cons.prems(2)] obtain es1 where es1: "lookup r1 dp = Inr (Dir es1)" by blast
  have sib: "(dp @ [f]) \<parallel> (dp @ [g])" if "g \<in> set rest" for g
    using that Cons.prems(1) by (intro parallel_siblings1) auto
  have rest_ok: "\<forall>g\<in>set rest. \<exists>n. lookup r1 (dp @ [g]) = Inr n \<and> size n < k"
    using Cons.prems(3) par [OF sib] by simp
  from Cons.prems(1) have d: "distinct rest" by simp
  from Cons.IH [OF d es1 rest_ok] obtain root' es' where
    pm: "promiseMap rest body r1 = Some (Inr (), root')"
    and dir: "lookup root' dp = Inr (Dir es')"
    and all_gone: "\<forall>g\<in>set rest. lookup root' (dp @ [g]) = Inl ENOENT"
    and frame: "\<And>q. (\<forall>g\<in>set rest. (dp @ [g]) \<parallel> q) \<Longrightarrow> lookup root' q = lookup r1 q"
    and up: "\<And>q ds. strict_prefix q dp \<Longrightarrow> lookup r1 q = Inr (Dir ds) \<Longrightarrow>
        \<exists>ds'. lookup root' q = Inr (Dir ds')"
    by blast
  have a: "promiseMap (f # rest) body root = Some (Inr (), root')" using r1 pm by simp
  have "\<forall>g\<in>set rest. (dp @ [g]) \<parallel> (dp @ [f])" using sib by (simp add: parallel_commute)
  from frame [OF this] gone have b: "lookup root' (dp @ [f]) = Inl ENOENT" by simp
  have c: "lookup root' q = lookup root q" if "\<forall>h\<in>set (f # rest). (dp @ [h]) \<parallel> q" for q
    using that frame [of q] par [of q] by simp
  have e: "\<exists>ds'. lookup root' q = Inr (Dir ds')"
    if "strict_prefix q dp" "lookup root q = Inr (Dir ds)" for q ds
  proof -
    from that(1) have "strict_prefix q (dp @ [f])" by (auto simp: strict_prefix_def prefix_def)
    from above [OF this that(2)] obtain ds1 where "lookup r1 q = Inr (Dir ds1)" by blast
    from up [OF that(1) this] show ?thesis .
  qed
  from a dir b all_gone c e show ?case by (intro exI [of _ root'] exI [of _ es']) simp
qed

lemma map_of_names:
  "f \<in> set (remdups (map fst es)) \<Longrightarrow> \<exists>n. map_of es f = Some n"
  by (cases "map_of es f") (auto simp: map_of_eq_None_iff)

lemma map_of_not_names:
  "f \<notin> set (remdups (map fst es)) \<Longrightarrow> map_of es f = None"
  by (simp add: map_of_eq_None_iff)

lemma map_of_all_None: "(\<forall>k. map_of es k = None) \<Longrightarrow> es = []"
  by (cases es) (auto split: if_splits)

lemma rmDir_fuel_spec:
  "(removeSelf \<longrightarrow> dirPath \<noteq> []) \<Longrightarrow>
   (\<forall>n. lookup root dirPath = Inr n \<longrightarrow> size n < k) \<Longrightarrow> 0 < k \<Longrightarrow>
   \<exists>root'. rmDir_fuel k dirPath removeSelf root = Some (Inr (), root') \<and>
     (\<forall>q. dirPath \<parallel> q \<longrightarrow> lookup root' q = lookup root q) \<and>
     (\<forall>q ds. strict_prefix q dirPath \<longrightarrow> lookup root q = Inr (Dir ds) \<longrightarrow>
        (\<exists>ds'. lookup root' q = Inr (Dir ds'))) \<and>
     (case lookup root dirPath of
        Inr (Dir es) \<Rightarrow>
          if removeSelf then lookup root' dirPath = Inl ENOENT
          else lookup root' dirPath = Inr (Dir [])
      | _ \<Rightarrow> root' = root)"
proof (induction k arbitrary: dirPath removeSelf root)
  case 0
  then show ?case by simp
next
  case (Suc k)
  let ?body = "\<lambda>f r. let filePath = dirPath @ [f] in
                     case lstat r filePath of
                       Inl err \<Rightarrow> Some (Inl err, r)
                     | Inr file \<Rightarrow>
                         if isFile file then
                           (case unlink r filePath of
                              Inl err \<Rightarrow> Some (Inl err, r)
                            | Inr r' \<Rightarrow> Some (Inr (), r'))
                         else rmDir_fuel k filePath True r"
  show ?case
  proof (cases "lookup root dirPath")
    case (Inl c)
    then show ?thesis by (simp add: readdir_def)
  next
    case (Inr n)
    show ?thesis
    proof (cases n)
      case (File m c)
      with Inr show ?thesis by (simp add: readdir_def)
    next
      case (Dir es)
      with Inr have dir: "lookup root dirPath = Inr (Dir es)" by simp
      with Suc.prems(2) have sz: "size (Dir es) < Suc k" by simp
      let ?names = "remdups (map fst es)"
      have rd: "readdir root dirPath = Inr ?names" using dir by (simp add: readdir_def)
      have step: "\<exists>r1. ?body f r = Some (Inr (), r1) \<and> removedAt (dirPath @ [f]) r r1"
        if l: "lookup r (dirPath @ [f]) = Inr x" and s: "size x < k" for f r x
      proof (cases x)
        case (File m c)
        with l have "unlink r (dirPath @ [f]) = Inr (alter (dirPath @ [f]) (\<lambda>_. None) r)"
          by (simp add: unlink_def)
        moreover have "removedAt (dirPath @ [f]) r (alter (dirPath @ [f]) (\<lambda>_. None) r)"
          using alter_remove [OF l] by simp
        ultimately show ?thesis using l File by (simp add: lstat_def)
      next
        case (Dir ds)
        have "\<forall>n. lookup r (dirPath @ [f]) = Inr n \<longrightarrow> size n < k" using l s by simp
        moreover have "0 < k" using s by simp
        ultimately obtain r1 where
          r1: "rmDir_fuel k (dirPath @ [f]) True r = Some (Inr (), r1)"
          "\<forall>q. (dirPath @ [f]) \<parallel> q \<longrightarrow> lookup r1 q = lookup r q"
          "\<forall>q ds. strict_prefix q (dirPath @ [f]) \<longrightarrow> lookup r q = Inr (Dir ds) \<longrightarrow>
             (\<exists>ds'. lookup r1 q = Inr (Dir ds'))"
          "lookup r1 (dirPath @ [f]) = Inl ENOENT"
          using Suc.IH [of True "dirPath @ [f]" r] l Dir by auto
        then have "removedAt (dirPath @ [f]) r r1" unfolding removedAt_def by blast
        with r1(1) l Dir show ?thesis by (simp add: lstat_def)
      qed
      have small: "\<forall>f\<in>set ?names. \<exists>x. lookup root (dirPath @ [f]) = Inr x \<and> size x < k"
      proof
        fix f assume "f \<in> set ?names"
        from map_of_names [OF this] obtain x where x: "map_of es f = Some x" by blast
        with dir have "lookup root (dirPath @ [f]) = Inr x" by (simp add: lookup_snoc)
        moreover have "size x < k" using size_map_of [OF x] sz by simp
        ultimately show "\<exists>x. lookup root (dirPath @ [f]) = Inr x \<and> size x < k" by blast
      qed
      have "distinct ?names" by simp
      have "\<exists>root' es'. promiseMap ?names ?body root = Some (Inr (), root') \<and>
         lookup root' dirPath = Inr (Dir es') \<and>
         (\<forall>f\<in>set ?names. lookup root' (dirPath @ [f]) = Inl ENOENT) \<and>
         (\<forall>q. (\<forall>f\<in>set ?names. (dirPath @ [f]) \<parallel> q) \<longrightarrow> lookup root' q = lookup root q) \<and>
         (\<forall>q ds. strict_prefix q dirPath \<longrightarrow> lookup root q = Inr (Dir ds) \<longrightarrow>
            (\<exists>ds'. lookup root' q = Inr (Dir ds')))"
      proof (rule promiseMap_remove_all [of dirPath k ?body ?names root es])
        fix f r n
        assume "lookup r (dirPath @ [f]) = Inr n" "size n < k"
        then show "\<exists>r1. ?body f r = Some (Inr (), r1) \<and> removedAt (dirPath @ [f]) r r1"
          by (rule step)
      qed (fact+)
      then obtain root1 es1 where
        pm: "promiseMap ?names ?body root = Some (Inr (), root1)"
        and dir1: "lookup root1 dirPath = Inr (Dir es1)"
        and gone: "\<forall>f\<in>set ?names. lookup root1 (dirPath @ [f]) = Inl ENOENT"
        and frame: "\<And>q. (\<forall>f\<in>set ?names. (dirPath @ [f]) \<parallel> q) \<Longrightarrow> lookup root1 q = lookup root q"
        and up: "\<And>q ds. strict_prefix q dirPath \<Longrightarrow> lookup root q = Inr (Dir ds) \<Longrightarrow>
            \<exists>ds'. lookup root1 q = Inr (Dir ds')"
        by blast
      have par1: "lookup root1 q = lookup root q" if "dirPath \<parallel> q" for q
        using frame [of q] parallel_snoc_left [OF that] by simp
      have "map_of es1 g = None" for g
      proof (cases "g \<in> set ?names")
        case True
        with gone have "lookup root1 (dirPath @ [g]) = Inl ENOENT" by blast
        with dir1 show ?thesis by (simp add: lookup_snoc split: option.splits)
      next
        case False
        then have "\<forall>f\<in>set ?names. (dirPath @ [f]) \<parallel> (dirPath @ [g])"
          by (auto intro!: parallel_siblings1)
        from frame [OF this] have "lookup root1 (dirPath @ [g]) = lookup root (dirPath @ [g])" .
        also have "\<dots> = Inl ENOENT"
          using dir map_of_not_names [OF False] by (simp add: lookup_snoc)
        finally show ?thesis using dir1 by (simp add: lookup_snoc split: option.splits)
      qed
      then have "es1 = []" using map_of_all_None by blast
      with dir1 have empty1: "lookup root1 dirPath = Inr (Dir [])" by simp
      show ?thesis
      proof (cases removeSelf)
        case False
        have "rmDir_fuel (Suc k) dirPath removeSelf root = Some (Inr (), root1)"
          using rd pm False by simp
        with par1 up empty1 dir False show ?thesis by auto
      next
        case True
        with Suc.prems(1) have ne: "dirPath \<noteq> []" by simp
        let ?root2 = "alter dirPath (\<lambda>_. None) root1"
        have "rmdir root1 dirPath = Inr ?root2" using empty1 ne by (simp add: rmdir_def)
        then have res: "rmDir_fuel (Suc k) dirPath removeSelf root = Some (Inr (), ?root2)"
          using rd pm True by simp
        from alter_remove [OF empty1 ne] have rem: "removedAt dirPath root1 ?root2" .
        then have a: "lookup ?root2 dirPath = Inl ENOENT" unfolding removedAt_def by blast
        have b: "lookup ?root2 q = lookup root q" if "dirPath \<parallel> q" for q
          using rem par1 [OF that] that unfolding removedAt_def by simp
        have c: "\<exists>ds'. lookup ?root2 q = Inr (Dir ds')"
          if "strict_prefix q dirPath" "lookup root q = Inr (Dir ds)" for q ds
        proof -
          from up [OF that] obtain ds1 where "lookup root1 q = Inr (Dir ds1)" by blast
          with rem that(1) show ?thesis unfolding removedAt_def by blast
        qed
        from res a b c dir True show ?thesis by auto
      qed
    qed
  qed
qed

lemma rmDir_fuel_enough:
  "(removeSelf \<longrightarrow> dirPath \<noteq> []) \<Longrightarrow>
   \<exists>root'. rmDir_fuel (Suc (size root)) dirPath removeSelf root = Some (Inr (), root')"
  using rmDir_fuel_spec [of removeSelf dirPath root "Suc (size root)"] lookup_size [of root dirPath]
  by (meson le_imp_less_Suc zero_less_Suc)

lemma rmDir_spec:
  assumes "removeSelf \<longrightarrow> dirPath \<noteq> []"
  shows "\<exists>root'. rmDir dirPath removeSelf root = (Inr (), root') \<and>
     (\<forall>q. dirPath \<parallel> q \<longrightarrow> lookup root' q = lookup root q) \<and>
     (\<forall>q ds. strict_prefix q dirPath \<longrightarrow> lookup root q = Inr (Dir ds) \<longrightarrow>
        (\<exists>ds'. lookup root' q = Inr (Dir ds'))) \<and>
     (case lookup root dirPath of
        Inr (Dir es) \<Rightarrow>
          if removeSelf then lookup root' dirPath = Inl ENOENT
          else lookup root' dirPath = Inr (Dir [])
      | _ \<Rightarrow> root' = root)"
proof -
  have "\<forall>n. lookup root dirPath = Inr n \<longrightarrow> size n < Suc (size root)"
    using lookup_size [of root dirPath] by (simp add: le_imp_less_Suc)
  from rmDir_fuel_spec [OF assms this] obtain root' where
    "rmDir_fuel (Suc (size root)) dirPath removeSelf root = Some (Inr (), root')"
    "(\<forall>q. dirPath \<parallel> q \<longrightarrow> lookup root' q = lookup root q) \<and>
     (\<forall>q ds. strict_prefix q dirPath \<longrightarrow> lookup root q = Inr (Dir ds) \<longrightarrow>
        (\<exists>ds'. lookup root' q = Inr (Dir ds'))) \<and>
     (case lookup root dirPath of
        Inr (Dir es) \<Rightarrow>
          if removeSelf then lookup root' dirPath = Inl ENOENT
          else lookup root' dirPath = Inr (Dir [])
      | _ \<Rightarrow> root' = root)"
    by auto
  then show ?thesis by (intro exI [of _ root']) (simp add: rmDir_def)
qed

section \<open>Extraction and download\<close>

lemma plant_lookup: "plant p mode n = Some n' \<Longrightarrow> lookup n' p = Inr (File mode Plain)"
proof (induction p mode n arbitrary: n' rule: plant.induct)
  case (1 mode n)
  then show ?case by simp
next
  case (2 s p mode m c)
  then show ?case by simp
next
  case (3 s mode es)
  then show ?case by (auto split: option.splits)
next
  case (4 s t p mode es)
  then show ?case by (auto split: option.splits)
qed

lemma plant_parallel: "plant p mode n = Some n' \<Longrightarrow> p \<parallel> q \<Longrightarrow> lookup n' q = lookup n q"
proof (induction p mode n arbitrary: n' q rule: plant.induct)
  case (1 mode n)
  then show ?case by simp
next
  case (2 s p mode m c)
  then show ?case by simp
next
  case (3 s mode es)
  then show ?case by (cases q) (auto split: option.splits)
next
  case (4 s t p mode es)
  let ?child = "case map_of es s of None \<Rightarrow> Dir [] | Some n \<Rightarrow> n"
  from 4(2) obtain c' where c': "plant (t # p) mode ?child = Some c'"
    and n': "n' = Dir (AList.update s c' es)" by (auto split: option.splits)
  show ?case
  proof (cases q)
    case Nil
    with 4(3) show ?thesis by simp
  next
    case (Cons a r)
    show ?thesis
    proof (cases "a = s")
      case False
      with Cons n' show ?thesis by simp
    next
      case True
      with 4(3) Cons have par: "(t # p) \<parallel> r" by (simp add: parallel_def)
      from 4(1) [OF c' par] have eq: "lookup c' r = lookup ?child r" .
      have "r \<noteq> []" using par by auto
      then obtain b r' where r: "r = b # r'" by (cases r) auto
      show ?thesis using eq Cons True n' r by (auto split: option.splits)
    qed
  qed
qed

lemma plant_keeps:
  "plant p mode n = Some n' \<Longrightarrow> lookup n q = Inr x \<Longrightarrow>
   \<exists>x'. lookup n' q = Inr x' \<and> (isFile x \<longrightarrow> x' = x)"
proof (induction p mode n arbitrary: n' q x rule: plant.induct)
  case (1 mode n)
  then show ?case by simp
next
  case (2 s p mode m c)
  then show ?case by simp
next
  case (3 s mode es)
  then show ?case by (cases q) (auto split: option.splits if_splits)
next
  case (4 s t p mode es)
  let ?child = "case map_of es s of None \<Rightarrow> Dir [] | Some n \<Rightarrow> n"
  from 4(2) obtain c' where c': "plant (t # p) mode ?child = Some c'"
    and n': "n' = Dir (AList.update s c' es)" by (auto split: option.splits)
  show ?case
  proof (cases q)
    case Nil
    with 4(3) n' show ?thesis by auto
  next
    case (Cons a r)
    show ?thesis
    proof (cases "a = s")
      case False
      with Cons n' 4(3) show ?thesis by simp
    next
      case True
      with 4(3) Cons obtain c where c: "map_of es s = Some c" "lookup c r = Inr x"
        by (auto split: option.splits)
      then have "lookup ?child r = Inr x" by simp
      from 4(1) [OF c' this] show ?thesis using Cons True n' by simp
    qed
  qed
qed

lemma plant_exists: "lookup n p = Inr x \<Longrightarrow> plant p mode n = None"
proof (induction p mode n arbitrary: x rule: plant.induct)
  case (1 mode n)
  then show ?case by simp
next
  case (2 s p mode m c)
  then show ?case by simp
next
  case (3 s mode es)
  then show ?case by (auto split: option.splits)
next
  case (4 s t p mode es)
  then show ?case by (auto split: option.splits)
qed

lemma extractAll_keeps:
  "extractAll entries dest root = (ok, root') \<Longrightarrow> lookup root q = Inr x \<Longrightarrow>
   \<exists>x'. lookup root' q = Inr x' \<and> (isFile x \<longrightarrow> x' = x)"
proof (induction entries arbitrary: root x)
  case Nil
  then show ?case by simp
next
  case (Cons a entries)
  obtain rel mode where a: "a = (rel, mode)" by (cases a)
  show ?case
  proof (cases "plant (dest @ rel) mode root")
    case None
    with Cons.prems a show ?thesis by simp
  next
    case (Some r1)
    from plant_keeps [OF Some Cons.prems(2)] obtain x1 where
      x1: "lookup r1 q = Inr x1" "isFile x \<longrightarrow> x1 = x" by blast
    from Cons.prems(1) a Some have "extractAll entries dest r1 = (ok, root')" by simp
    from Cons.IH [OF this x1(1)] x1(2) show ?thesis by (cases x) auto
  qed
qed

lemma extractAll_lookup:
  "extractAll entries dest root = (True, root') \<Longrightarrow> (rel, mode) \<in> set entries \<Longrightarrow>
   lookup root' (dest @ rel) = Inr (File mode Plain)"
proof (induction entries arbitrary: root)
  case Nil
  then show ?case by simp
next
  case (Cons a entries)
  obtain rel1 mode1 where a: "a = (rel1, mode1)" by (cases a)
  from Cons.prems(1) a obtain r1 where r1: "plant (dest @ rel1) mode1 root = Some r1"
    and rest: "extractAll entries dest r1 = (True, root')"
    by (auto split: option.splits)
  show ?case
  proof (cases "(rel, mode) = a")
    case True
    with a r1 have "lookup r1 (dest @ rel) = Inr (File mode Plain)" by (simp add: plant_lookup)
    from extractAll_keeps [OF rest this] show ?thesis by simp
  next
    case False
    with Cons.prems(2) have "(rel, mode) \<in> set entries" by simp
    from Cons.IH [OF rest this] show ?thesis .
  qed
qed

lemma extractAll_entry_untouched:
  assumes "\<forall>(rel, mode)\<in>set entries. rel \<noteq> [] \<longrightarrow> hd rel \<noteq> name"
  shows "lookup root dest = Inr d \<Longrightarrow>
         lookup (snd (extractAll entries dest root)) (dest @ [name]) = lookup root (dest @ [name])"
  using assms
proof (induction entries arbitrary: root d)
  case Nil
  then show ?case by simp
next
  case (Cons a entries)
  obtain rel mode where a: "a = (rel, mode)" by (cases a)
  show ?case
  proof (cases "plant (dest @ rel) mode root")
    case None
    with a show ?thesis by simp
  next
    case (Some r1)
    have "rel \<noteq> []" using Some plant_exists [OF Cons.prems(1), of mode] by auto
    then obtain s r where rel: "rel = s # r" by (cases rel) auto
    with Cons.prems(2) a have "s \<noteq> name" by auto
    then have "(dest @ rel) \<parallel> (dest @ [name])" unfolding rel by (simp add: parallel_def)
    from plant_parallel [OF Some this]
    have eq: "lookup r1 (dest @ [name]) = lookup root (dest @ [name])" .
    from plant_keeps [OF Some Cons.prems(1)] obtain d1 where d1: "lookup r1 dest = Inr d1" by blast
    from Cons.prems(2) have "\<forall>(rel, mode)\<in>set entries. rel \<noteq> [] \<longrightarrow> hd rel \<noteq> name" by simp
    from Cons.IH [OF d1 this] eq a Some show ?thesis by simp
  qed
qed

lemma writeStream_result:
  "writeStream root p body = Inr root' \<Longrightarrow>
   (\<exists>m. lookup root' p = Inr (File m body)) \<and> (\<forall>q. p \<parallel> q \<longrightarrow> lookup root' q = lookup root q)"
proof -
  assume ws: "writeStream root p body = Inr root'"
  then have "p \<noteq> []" by (auto simp: writeStream_def)
  then obtain p0 s where p: "p = p0 @ [s]" by (metis rev_exhaust)
  from ws obtain es where d: "lookup root p0 = Inr (Dir es)"
    unfolding p by (auto simp: writeStream_def split: sum.splits node.splits)
  from ws d obtain m where r: "root' = alter p (\<lambda>_. Some (File m body)) root"
    unfolding p by (auto simp: writeStream_def split: option.splits node.splits)
  have "lookup root' p = Inr (File m body)"
    using lookup_alter_same [OF d, of s "\<lambda>_. Some (File m body)" "[]"] r p by simp
  then show ?thesis using r lookup_alter_parallel by blast
qed

lemma mkdir_parallel:
  "mkdir root p = Inr root' \<Longrightarrow> p \<parallel> q \<Longrightarrow> lookup root' q = lookup root q"
  by (auto simp: mkdir_def lookup_alter_parallel split: if_splits sum.splits node.splits option.splits)

lemma downloadFile_cases:
  assumes "downloadFile e url file w = (r, w3)"
  shows "trace w3 = trace w @ [Download url file] \<and>
    (case r of
       Inl err \<Rightarrow> fs w3 = fs w
     | Inr u \<Rightarrow> fst (http_download e url) = 200 \<and>
                writeStream (fs w) file (snd (http_download e url)) = Inr (fs w3))"
  using assms
  by (cases "http_download e url")
     (auto simp: downloadFile_def Let_def split: if_splits sum.splits)

lemma unzip_cases:
  assumes "unzip file dest w = (r, w4)"
  shows "trace w4 = trace w @ [Unzip file dest] \<and>
    (fs w4 = fs w \<and> (\<exists>err. r = Inl err) \<or>
     (\<exists>m entries es. lookup (fs w) file = Inr (File m (Zip entries)) \<and>
        lookup (fs w) dest = Inr (Dir es) \<and>
        fs w4 = snd (extractAll entries dest (fs w)) \<and>
        (r = Inr () \<longrightarrow> fst (extractAll entries dest (fs w)))))"
  using assms
  by (auto simp: unzip_def Let_def
      split: prod.splits sum.splits node.splits content.splits bool.splits)

lemma tmp_parallel_binary: "(dir @ [''tmp'']) \<parallel> (dir @ binaryPath)"
  by (simp add: binaryPath_def parallel_def)

lemma download_success:
  assumes ok: "download e v dir w = (Inr x, w1)"
    and archive: "http_download e (downloadUrl v) = (200, Zip entries)"
    and packed: "(binaryPath, m) \<in> set entries"
  shows "trace w1 = trace w @ [Download (downloadUrl v) (dir @ [''tmp'', ''tmp'']),
                              Unzip (dir @ [''tmp'', ''tmp'']) dir] \<and>
         lookup (fs w1) (dir @ binaryPath) = Inr (File m Plain)"
proof -
  let ?file = "dir @ [''tmp'', ''tmp'']"
  obtain r1 root1 where s1: "rmDir dir False (fs w) = (r1, root1)"
    by (cases "rmDir dir False (fs w)")
  define root2 where
    "root2 = (case mkdir root1 (dir @ [''tmp'']) of Inl err \<Rightarrow> root1 | Inr r \<Rightarrow> r)"
  obtain r3 w3 where s3: "downloadFile e (downloadUrl v) ?file (w\<lparr>fs := root2\<rparr>) = (r3, w3)"
    by (cases "downloadFile e (downloadUrl v) ?file (w\<lparr>fs := root2\<rparr>)")
  obtain r4 w4 where s4: "unzip ?file dir w3 = (r4, w4)" by (cases "unzip ?file dir w3")
  obtain r5 root5 where s5: "rmDir (dir @ [''tmp'']) True (fs w4) = (r5, root5)"
    by (cases "rmDir (dir @ [''tmp'']) True (fs w4)")
  from ok have all: "r1 = Inr ()" "r3 = Inr ()" "r4 = Inr ()" "r5 = Inr ()" "w1 = w4\<lparr>fs := root5\<rparr>"
    unfolding download_unfold [OF s1 root2_def s3 s4 s5] by (auto split: sum.splits)
  from downloadFile_cases [OF s3] all(2) archive
  have t3: "trace w3 = trace w @ [Download (downloadUrl v) ?file]"
    and ws: "writeStream root2 ?file (Zip entries) = Inr (fs w3)" by auto
  from writeStream_result [OF ws] obtain m' where f3: "lookup (fs w3) ?file = Inr (File m' (Zip entries))"
    by blast
  from unzip_cases [OF s4] all(3) f3
  have t4: "trace w4 = trace w3 @ [Unzip ?file dir]"
    and ex: "extractAll entries dir (fs w3) = (True, fs w4)"
    by (auto simp: prod_eq_iff)
  from extractAll_lookup [OF ex packed] have b4: "lookup (fs w4) (dir @ binaryPath) = Inr (File m Plain)" .
  from rmDir_spec [of True "dir @ [''tmp'']" "fs w4"] s5
  have "lookup root5 (dir @ binaryPath) = lookup (fs w4) (dir @ binaryPath)"
    using tmp_parallel_binary by auto
  with b4 t3 t4 all(5) show ?thesis by simp
qed

lemma download_entry_gone:
  assumes dir: "lookup (fs w) dir = Inr (Dir ds)"
    and name: "name \<noteq> ''tmp''"
    and archive: "\<forall>entries. snd (http_download e (downloadUrl v)) = Zip entries \<longrightarrow>
        (\<forall>(rel, mode)\<in>set entries. rel \<noteq> [] \<longrightarrow> hd rel \<noteq> name)"
  shows "lookup (fs (snd (download e v dir w))) (dir @ [name]) = Inl ENOENT"
proof -
  let ?file = "dir @ [''tmp'', ''tmp'']"
  let ?q = "dir @ [name]"
  from rmDir_spec [of False dir "fs w"] dir obtain root1 where
    s1: "rmDir dir False (fs w) = (Inr (), root1)" and e1: "lookup root1 dir = Inr (Dir [])"
    by auto
  have g1: "lookup root1 ?q = Inl ENOENT" using e1 by (simp add: lookup_snoc)
  define root2 where
    "root2 = (case mkdir root1 (dir @ [''tmp'']) of Inl err \<Rightarrow> root1 | Inr r \<Rightarrow> r)"
  have par_tmp: "(dir @ [''tmp'']) \<parallel> ?q" using name by (simp add: parallel_def)
  have par_file: "?file \<parallel> ?q" using name by (simp add: parallel_def)
  have g2: "lookup root2 ?q = Inl ENOENT"
    unfolding root2_def using g1 mkdir_parallel [OF _ par_tmp] by (auto split: sum.splits)
  obtain r3 w3 where s3: "downloadFile e (downloadUrl v) ?file (w\<lparr>fs := root2\<rparr>) = (r3, w3)"
    by (cases "downloadFile e (downloadUrl v) ?file (w\<lparr>fs := root2\<rparr>)")
  obtain r4 w4 where s4: "unzip ?file dir w3 = (r4, w4)" by (cases "unzip ?file dir w3")
  obtain r5 root5 where s5: "rmDir (dir @ [''tmp'']) True (fs w4) = (r5, root5)"
    by (cases "rmDir (dir @ [''tmp'']) True (fs w4)")
  have g3: "lookup (fs w3) ?q = Inl ENOENT"
  proof (cases r3)
    case (Inl err)
    with downloadFile_cases [OF s3] g2 show ?thesis by simp
  next
    case (Inr u)
    with downloadFile_cases [OF s3]
    have "writeStream root2 ?file (snd (http_download e (downloadUrl v))) = Inr (fs w3)" by simp
    from writeStream_result [OF this] par_file g2 show ?thesis by simp
  qed
  have g4: "lookup (fs w4) ?q = Inl ENOENT" if r3: "r3 = Inr ()"
  proof -
    from downloadFile_cases [OF s3] r3
    have "writeStream root2 ?file (snd (http_download e (downloadUrl v))) = Inr (fs w3)" by simp
    from writeStream_result [OF this] obtain m' where
      f3: "lookup (fs w3) ?file = Inr (File m' (snd (http_download e (downloadUrl v))))" by blast
    from unzip_cases [OF s4] show ?thesis
    proof (elim conjE disjE exE)
      assume "fs w4 = fs w3"
      with g3 show ?thesis by simp
    next
      fix m entries es
      assume a: "lookup (fs w3) ?file = Inr (File m (Zip entries))"
        "lookup (fs w3) dir = Inr (Dir es)" "fs w4 = snd (extractAll entries dir (fs w3))"
      with f3 have "snd (http_download e (downloadUrl v)) = Zip entries" by simp
      with archive have "\<forall>(rel, mode)\<in>set entries. rel \<noteq> [] \<longrightarrow> hd rel \<noteq> name" by blast
      from extractAll_entry_untouched [OF this a(2)] a(3) g3 show ?thesis by simp
    qed
  qed
  have g5: "lookup root5 ?q = Inl ENOENT" if "r3 = Inr ()"
    using rmDir_spec [of True "dir @ [''tmp'']" "fs w4"] s5 par_tmp g4 [OF that] by auto
  show ?thesis
    unfolding download_unfold [OF s1 root2_def s3 s4 s5]
    using g3 g4 g5 by (auto split: sum.splits)
qed

lemma plant_keeps_dir:
  "plant p mode n = Some n' \<Longrightarrow> lookup n q = Inr (Dir ds) \<Longrightarrow>
   \<exists>ds'. lookup n' q = Inr (Dir ds')"
proof (induction p mode n arbitrary: n' q ds rule: plant.induct)
  case (1 mode n)
  then show ?case by simp
next
  case (2 s p mode m c)
  then show ?case by simp
next
  case (3 s mode es)
  then show ?case by (cases q) (auto split: option.splits if_splits)
next
  case (4 s t p mode es)
  let ?child = "case map_of es s of None \<Rightarrow> Dir [] | Some n \<Rightarrow> n"
  from 4(2) obtain c' where c': "plant (t # p) mode ?child = Some c'"
    and n': "n' = Dir (AList.update s c' es)" by (auto split: option.splits)
  show ?case
  proof (cases q)
    case Nil
    with 4(3) n' show ?thesis by auto
  next
    case (Cons a r)
    show ?thesis
    proof (cases "a = s")
      case False
      with Cons n' 4(3) show ?thesis by simp
    next
      case True
      with 4(3) Cons obtain c where c: "map_of es s = Some c" "lookup c r = Inr (Dir ds)"
        by (auto split: option.splits)
      then have "lookup ?child r = Inr (Dir ds)" by simp
      from 4(1) [OF c' this] show ?thesis using Cons True n' by simp
    qed
  qed
qed

lemma plant_origin:
  "plant p mode n = Some n' \<Longrightarrow> lookup n' q = Inr x \<Longrightarrow>
   (\<exists>y. lookup n q = Inr y) \<or> prefix q p"
proof (induction p mode n arbitrary: n' q x rule: plant.induct)
  case (1 mode n)
  then show ?case by simp
next
  case (2 s p mode m c)
  then show ?case by simp
next
  case (3 s mode es)
  show ?case
  proof (cases q)
    case Nil
    then show ?thesis by simp
  next
    case (Cons a r)
    with 3 show ?thesis
      by (cases r) (auto split: option.splits if_splits)
  qed
next
  case (4 s t p mode es)
  let ?child = "case map_of es s of None \<Rightarrow> Dir [] | Some n \<Rightarrow> n"
  from 4(2) obtain c' where c': "plant (t # p) mode ?child = Some c'"
    and n': "n' = Dir (AList.update s c' es)" by (auto split: option.splits)
  show ?case
  proof (cases q)
    case Nil
    then show ?thesis by simp
  next
    case (Cons a r)
    show ?thesis
    proof (cases "a = s")
      case False
      with Cons n' 4(3) show ?thesis by auto
    next
      case True
      with 4(3) Cons n' have l: "lookup c' r = Inr x" by simp
      from 4(1) [OF c' l] have d: "(\<exists>y. lookup ?child r = Inr y) \<or> prefix r (t # p)" .
      show ?thesis
      proof (cases "prefix r (t # p)")
        case True
        with Cons \<open>a = s\<close> show ?thesis by simp
      next
        case False
        with d obtain y where y: "lookup ?child r = Inr y" by blast
        from False have "r \<noteq> []" by auto
        then obtain b r' where r: "r = b # r'" by (cases r) auto
        with y obtain c where "map_of es s = Some c" by (cases "map_of es s") auto
        with y Cons \<open>a = s\<close> show ?thesis by simp
      qed
    qed
  qed
qed

lemma extractAll_keeps_dir:
  "extractAll entries dest root = (ok, root') \<Longrightarrow> lookup root q = Inr (Dir ds) \<Longrightarrow>
   \<exists>ds'. lookup root' q = Inr (Dir ds')"
proof (induction entries arbitrary: root ds)
  case Nil
  then show ?case by simp
next
  case (Cons a entries)
  obtain rel mode where a: "a = (rel, mode)" by (cases a)
  show ?case
  proof (cases "plant (dest @ rel) mode root")
    case None
    with Cons.prems a show ?thesis by simp
  next
    case (Some r1)
    from plant_keeps_dir [OF Some Cons.prems(2)] obtain ds1 where
      "lookup r1 q = Inr (Dir ds1)" by blast
    moreover from Cons.prems(1) a Some have "extractAll entries dest r1 = (ok, root')" by simp
    ultimately show ?thesis using Cons.IH by blast
  qed
qed

lemma extractAll_origin:
  "extractAll entries dest root = (ok, root') \<Longrightarrow> lookup root' q = Inr x \<Longrightarrow>
   (\<exists>y. lookup root q = Inr y) \<or> (\<exists>rel mode. (rel, mode) \<in> set entries \<and> prefix q (dest @ rel))"
proof (induction entries arbitrary: root)
  case Nil
  then show ?case by auto
next
  case (Cons a entries)
  obtain rel mode where a: "a = (rel, mode)" by (cases a)
  show ?case
  proof (cases "plant (dest @ rel) mode root")
    case None
    with Cons.prems a show ?thesis by auto
  next
    case (Some r1)
    from Cons.prems(1) a Some have "extractAll entries dest r1 = (ok, root')" by simp
    from Cons.IH [OF this Cons.prems(2)]
    consider y where "lookup r1 q = Inr y"
      | rel' mode' where "(rel', mode') \<in> set entries" "prefix q (dest @ rel')" by blast
    then show ?thesis
    proof cases
      case 1
      from plant_origin [OF Some this] a show ?thesis by auto
    next
      case 2
      then show ?thesis by auto
    qed
  qed
qed

lemma rmDir_empty:
  assumes "lookup root dirPath = Inr (Dir [])"
  shows "rmDir dirPath False root = (Inr (), root)"
  using assms by (simp add: rmDir_def readdir_def)

lemma writeStream_alter:
  assumes "writeStream root p body = Inr root'"
  shows "\<exists>m p0 s es. p = p0 @ [s] \<and> lookup root p0 = Inr (Dir es) \<and>
           root' = alter p (\<lambda>_. Some (File m body)) root"
proof -
  from assms have "p \<noteq> []" by (auto simp: writeStream_def)
  then obtain p0 s where p: "p = p0 @ [s]" by (metis rev_exhaust)
  from assms obtain es where d: "lookup root p0 = Inr (Dir es)"
    unfolding p by (auto simp: writeStream_def split: sum.splits node.splits)
  from assms d obtain m where "root' = alter p (\<lambda>_. Some (File m body)) root"
    unfolding p by (auto simp: writeStream_def split: option.splits node.splits)
  with p d show ?thesis by blast
qed

lemma path_trichotomy: "prefix r p \<or> strict_prefix p r \<or> r \<parallel> p"
  by (auto simp: parallel_def strict_prefix_def)

lemma download_contents:
  assumes dir: "lookup (fs w) dir = Inr (Dir ds)"
  shows "(\<exists>es'. lookup (fs (snd (download e v dir w))) dir = Inr (Dir es')) \<and>
    (\<forall>r x. r \<noteq> [] \<and> lookup (fs (snd (download e v dir w))) (dir @ r) = Inr x \<longrightarrow>
       prefix r [''tmp'', ''tmp''] \<or>
       (\<exists>entries rel mode. snd (http_download e (downloadUrl v)) = Zip entries \<and>
          (rel, mode) \<in> set entries \<and> prefix r rel))"
proof -
  let ?file = "dir @ [''tmp'', ''tmp'']"
  let ?body = "snd (http_download e (downloadUrl v))"
  define ok where "ok r \<longleftrightarrow> prefix r [''tmp'', ''tmp''] \<or>
       (\<exists>entries rel mode. ?body = Zip entries \<and> (rel, mode) \<in> set entries \<and> prefix r rel)" for r
  define K where "K root \<longleftrightarrow> (\<exists>es. lookup root dir = Inr (Dir es)) \<and>
       (\<forall>r x. r \<noteq> [] \<and> lookup root (dir @ r) = Inr x \<longrightarrow> ok r)" for root
  from rmDir_spec [of False dir "fs w"] dir obtain root1 where
    s1: "rmDir dir False (fs w) = (Inr (), root1)" and e1: "lookup root1 dir = Inr (Dir [])"
    by auto
  have k1: "K root1"
    unfolding K_def
  proof (intro conjI allI impI)
    show "\<exists>es. lookup root1 dir = Inr (Dir es)" using e1 by blast
    fix r x assume "r \<noteq> [] \<and> lookup root1 (dir @ r) = Inr x"
    then show "ok r" using e1 by (cases r) (auto simp: lookup_append)
  qed
  define root2 where
    "root2 = (case mkdir root1 (dir @ [''tmp'']) of Inl err \<Rightarrow> root1 | Inr r \<Rightarrow> r)"
  have k2: "K root2"
  proof (cases "mkdir root1 (dir @ [''tmp''])")
    case (Inl err)
    with k1 show ?thesis by (simp add: root2_def)
  next
    case (Inr r2)
    then have r2: "root2 = alter (dir @ [''tmp'']) (\<lambda>_. Some (Dir [])) root1"
      using e1 by (simp add: root2_def mkdir_snoc split: option.splits)
    show ?thesis
      unfolding K_def
    proof (intro conjI allI impI)
      show "\<exists>es. lookup root2 dir = Inr (Dir es)"
        using lookup_alter_above [OF e1, of "''tmp''" "[]"] r2 by simp
      fix r x assume a: "r \<noteq> [] \<and> lookup root2 (dir @ r) = Inr x"
      then obtain s r' where r: "r = s # r'" by (cases r) auto
      show "ok r"
      proof (cases "s = ''tmp''")
        case True
        with a r lookup_alter_same [OF e1, of "''tmp''" "\<lambda>_. Some (Dir [])" r'] r2
        have "lookup (Dir []) r' = Inr x" by simp
        then have "r' = []" by (cases r') auto
        with r True show ?thesis by (simp add: ok_def)
      next
        case False
        then have "(dir @ [''tmp'']) \<parallel> (dir @ r)" unfolding r by (simp add: parallel_def)
        with a r2 have "lookup root1 (dir @ r) = Inr x" by (simp add: lookup_alter_parallel)
        with k1 a show ?thesis unfolding K_def by blast
      qed
    qed
  qed
  have k_write: "K root'" if k: "K root" and ws: "writeStream root ?file body = Inr root'"
    for root root' body
  proof -
    from writeStream_alter [OF ws] obtain m p0 s es where
      p: "?file = p0 @ [s]" and d: "lookup root p0 = Inr (Dir es)"
      and r': "root' = alter ?file (\<lambda>_. Some (File m body)) root" by blast
    have p0: "p0 = dir @ [''tmp'']" "s = ''tmp''"
      using p by (metis append.assoc append_Cons append_Nil butlast_snoc, metis last_snoc last_appendR list.distinct(1) last.simps)
    from k obtain es0 where es0: "lookup root dir = Inr (Dir es0)" unfolding K_def by blast
    show ?thesis
      unfolding K_def
    proof (intro conjI allI impI)
      show "\<exists>es. lookup root' dir = Inr (Dir es)"
        using lookup_alter_above [OF es0, of "''tmp''" "[''tmp'']"] r' by simp
      fix r x assume a: "r \<noteq> [] \<and> lookup root' (dir @ r) = Inr x"
      from path_trichotomy [of r "[''tmp'', ''tmp'']"] show "ok r"
      proof (elim disjE)
        assume "prefix r [''tmp'', ''tmp'']"
        then show ?thesis by (simp add: ok_def)
      next
        assume "strict_prefix [''tmp'', ''tmp''] r"
        then obtain t u where r: "r = [''tmp'', ''tmp''] @ t # u"
          using strict_prefix_snoc_decomp by blast
        from d p0 have "lookup root (dir @ [''tmp'']) = Inr (Dir es)" by simp
        from lookup_alter_same [OF this, of "''tmp''" "\<lambda>_. Some (File m body)" "t # u"] r' a r
        show ?thesis by simp
      next
        assume "r \<parallel> [''tmp'', ''tmp'']"
        then have "?file \<parallel> (dir @ r)" by (simp add: parallel_def)
        with a r' have "lookup root (dir @ r) = Inr x" by (simp add: lookup_alter_parallel)
        with k a show ?thesis unfolding K_def by blast
      qed
    qed
  qed
  obtain r3 w3 where s3: "downloadFile e (downloadUrl v) ?file (w\<lparr>fs := root2\<rparr>) = (r3, w3)"
    by (cases "downloadFile e (downloadUrl v) ?file (w\<lparr>fs := root2\<rparr>)")
  obtain r4 w4 where s4: "unzip ?file dir w3 = (r4, w4)" by (cases "unzip ?file dir w3")
  obtain r5 root5 where s5: "rmDir (dir @ [''tmp'']) True (fs w4) = (r5, root5)"
    by (cases "rmDir (dir @ [''tmp'']) True (fs w4)")
  have k3: "K (fs w3)"
  proof (cases r3)
    case (Inl err)
    with downloadFile_cases [OF s3] k2 show ?thesis by simp
  next
    case (Inr u)
    with downloadFile_cases [OF s3] have "writeStream root2 ?file ?body = Inr (fs w3)" by simp
    from k_write [OF k2 this] show ?thesis .
  qed
  have k4: "K (fs w4)" if r3: "r3 = Inr ()"
  proof -
    from downloadFile_cases [OF s3] r3 have "writeStream root2 ?file ?body = Inr (fs w3)" by simp
    from writeStream_result [OF this] obtain m' where
      f3: "lookup (fs w3) ?file = Inr (File m' ?body)" by blast
    from unzip_cases [OF s4] show ?thesis
    proof (elim conjE disjE exE)
      assume "fs w4 = fs w3"
      with k3 show ?thesis by simp
    next
      fix m entries es
      assume a: "lookup (fs w3) ?file = Inr (File m (Zip entries))"
        "lookup (fs w3) dir = Inr (Dir es)" "fs w4 = snd (extractAll entries dir (fs w3))"
      with f3 have body: "?body = Zip entries" by simp
      obtain okx where ex: "extractAll entries dir (fs w3) = (okx, fs w4)"
        using a(3) by (cases "extractAll entries dir (fs w3)") auto
      show ?thesis
        unfolding K_def
      proof (intro conjI allI impI)
        show "\<exists>es. lookup (fs w4) dir = Inr (Dir es)"
          using extractAll_keeps_dir [OF ex a(2)] .
        fix r x assume b: "r \<noteq> [] \<and> lookup (fs w4) (dir @ r) = Inr x"
        from extractAll_origin [OF ex, of "dir @ r" x] b
        consider y where "lookup (fs w3) (dir @ r) = Inr y"
          | rel mode where "(rel, mode) \<in> set entries" "prefix (dir @ r) (dir @ rel)" by blast
        then show "ok r"
        proof cases
          case 1
          with k3 b show ?thesis unfolding K_def by blast
        next
          case 2
          with body show ?thesis unfolding ok_def by auto
        qed
      qed
    qed
  qed
  have k5: "K root5" if r3: "r3 = Inr ()"
  proof -
    from rmDir_spec [of True "dir @ [''tmp'']" "fs w4"] s5
    have spec5: "(\<forall>q. (dir @ [''tmp'']) \<parallel> q \<longrightarrow> lookup root5 q = lookup (fs w4) q) \<and>
       (\<forall>q ds. strict_prefix q (dir @ [''tmp'']) \<longrightarrow> lookup (fs w4) q = Inr (Dir ds) \<longrightarrow>
          (\<exists>ds'. lookup root5 q = Inr (Dir ds'))) \<and>
       (case lookup (fs w4) (dir @ [''tmp'']) of
          Inr (Dir es) \<Rightarrow>
            if True then lookup root5 (dir @ [''tmp'']) = Inl ENOENT
            else lookup root5 (dir @ [''tmp'']) = Inr (Dir [])
        | _ \<Rightarrow> root5 = fs w4)"
      by auto
    then have par: "\<And>q. (dir @ [''tmp'']) \<parallel> q \<Longrightarrow> lookup root5 q = lookup (fs w4) q"
      and up: "\<And>q ds. strict_prefix q (dir @ [''tmp'']) \<Longrightarrow> lookup (fs w4) q = Inr (Dir ds) \<Longrightarrow>
          \<exists>ds'. lookup root5 q = Inr (Dir ds')"
      by blast+
    from spec5 have at1: "\<And>es. lookup (fs w4) (dir @ [''tmp'']) = Inr (Dir es) \<Longrightarrow>
          lookup root5 (dir @ [''tmp'']) = Inl ENOENT"
      by simp
    from spec5 have at2: "\<not> (\<exists>es. lookup (fs w4) (dir @ [''tmp'']) = Inr (Dir es)) \<Longrightarrow> root5 = fs w4"
      by (auto split: sum.splits node.splits)
    from k4 [OF r3] obtain es4 where es4: "lookup (fs w4) dir = Inr (Dir es4)"
      unfolding K_def by blast
    show ?thesis
      unfolding K_def
    proof (intro conjI allI impI)
      have "strict_prefix dir (dir @ [''tmp''])" by (simp add: strict_prefix_def)
      from up [OF this es4] show "\<exists>es. lookup root5 dir = Inr (Dir es)" .
      fix r x assume b: "r \<noteq> [] \<and> lookup root5 (dir @ r) = Inr x"
      then obtain s r' where r: "r = s # r'" by (cases r) auto
      show "ok r"
      proof (cases "s = ''tmp''")
        case False
        then have "(dir @ [''tmp'']) \<parallel> (dir @ r)" unfolding r by (simp add: parallel_def)
        from par [OF this] b have "lookup (fs w4) (dir @ r) = Inr x" by simp
        with k4 [OF r3] b show ?thesis unfolding K_def by blast
      next
        case True
        show ?thesis
        proof (cases "\<exists>es. lookup (fs w4) (dir @ [''tmp'']) = Inr (Dir es)")
          case True
          with at1 have "lookup root5 (dir @ [''tmp'']) = Inl ENOENT" by blast
          then have "lookup root5 ((dir @ [''tmp'']) @ r') = Inl ENOENT"
            by (simp only: lookup_append) simp
          with b r \<open>s = ''tmp''\<close> show ?thesis by simp
        next
          case False
          with at2 have "root5 = fs w4" by blast
          with k4 [OF r3] b show ?thesis unfolding K_def by blast
        qed
      qed
    qed
  qed
  have "K (fs (snd (download e v dir w)))"
    unfolding download_unfold [OF s1 root2_def s3 s4 s5]
    using k3 k4 k5 by (auto split: sum.splits)
  then show ?thesis unfolding K_def ok_def by blast
qed

lemma download_from_emptied:
  assumes "rmDir dir False (fs w) = (Inr (), root1)" "lookup root1 dir = Inr (Dir [])"
  shows "download e v dir (w\<lparr>fs := root1\<rparr>) = download e v dir w"
  using assms by (simp add: download_def rmDir_empty)

section \<open>Installation\<close>

lemma resolveRuntimeVersion_numeric4:
  "list_all digits (split_char CHR ''.'' v) \<Longrightarrow> length (split_char CHR ''.'' v) = 4 \<Longrightarrow>
   resolveRuntimeVersion e v w = (Inr v, w)"
  by (simp add: resolveRuntimeVersion_def Let_def takeWhile_numeric numeric_isVersion)

lemma channelLookup_fs: "fs (snd (channelLookup e v w)) = fs w"
  by (simp add: channelLookup_def split: sum.splits)

lemma indexLookup_fs: "fs (snd (indexLookup e v pre w)) = fs w"
  by (simp add: indexLookup_def Let_def channelLookup_fs split: sum.splits option.splits)

lemma resolveRuntimeVersion_fs: "fs (snd (resolveRuntimeVersion e v w)) = fs w"
  by (simp add: resolveRuntimeVersion_def Let_def channelLookup_fs indexLookup_fs)

lemma resolveDir_result_path: "resolveDir base paths w = (Inr p, w') \<Longrightarrow> p = base @ paths"
proof (induction paths arbitrary: base w)
  case Nil
  then show ?case by (simp add: resolveDir_Nil)
next
  case (Cons s rest)
  show ?case
  proof (cases "mkdir (fs w) (base @ [s])")
    case (Inr root')
    with Cons.prems have "resolveDir (base @ [s]) rest (w\<lparr>fs := root'\<rparr>) = (Inr p, w')"
      by (simp add: resolveDir_Cons)
    from Cons.IH [OF this] show ?thesis by simp
  next
    case (Inl err)
    show ?thesis
    proof (cases "catchExistsError err")
      case (Inl err')
      with \<open>mkdir (fs w) (base @ [s]) = Inl err\<close> Cons.prems show ?thesis
        by (simp add: resolveDir_Cons)
    next
      case (Inr q)
      then have "err = Errno EEXIST q" by (cases err rule: catchExistsError.cases) auto
      with \<open>mkdir (fs w) (base @ [s]) = Inl err\<close> have q: "q = base @ [s]"
        using mkdir_EEXIST_path by blast
      from Cons.prems Inr \<open>mkdir (fs w) (base @ [s]) = Inl err\<close>
      have "resolveDir q rest w = (Inr p, w')" by (simp add: resolveDir_Cons)
      from Cons.IH [OF this] q show ?thesis by simp
    qed
  qed
qed

lemma resolveDir_absent:
  "lookup (fs w) (base @ paths @ r) = Inl c \<Longrightarrow> r \<noteq> [] \<Longrightarrow>
   \<exists>c'. lookup (fs (snd (resolveDir base paths w))) (base @ paths @ r) = Inl c'"
proof (induction paths arbitrary: base w c)
  case Nil
  then show ?case by (simp add: resolveDir_Nil)
next
  case (Cons s rest)
  from Cons.prems(2) obtain t u where tu: "rest @ r = t # u" by (cases "rest @ r") auto
  show ?case
  proof (cases "mkdir (fs w) (base @ [s])")
    case (Inr root')
    then obtain es where d: "lookup (fs w) base = Inr (Dir es)"
      and root': "root' = alter (base @ [s]) (\<lambda>_. Some (Dir [])) (fs w)"
      by (auto simp: mkdir_snoc split: sum.splits node.splits option.splits)
    have "lookup root' (base @ s # rest @ r) = Inl ENOENT"
      using lookup_alter_same [OF d, of s "\<lambda>_. Some (Dir [])" "rest @ r"] root' tu by simp
    then have "lookup (fs (w\<lparr>fs := root'\<rparr>)) ((base @ [s]) @ rest @ r) = Inl ENOENT" by simp
    from Cons.IH [OF this Cons.prems(2)] Inr show ?thesis by (simp add: resolveDir_Cons)
  next
    case (Inl err)
    show ?thesis
    proof (cases "catchExistsError err")
      case (Inl err')
      with \<open>mkdir (fs w) (base @ [s]) = Inl err\<close> Cons.prems show ?thesis
        by (simp add: resolveDir_Cons)
    next
      case (Inr q)
      then have "err = Errno EEXIST q" by (cases err rule: catchExistsError.cases) auto
      with \<open>mkdir (fs w) (base @ [s]) = Inl err\<close> have q: "q = base @ [s]"
        using mkdir_EEXIST_path by blast
      from Cons.prems(1) have "lookup (fs w) ((base @ [s]) @ rest @ r) = Inl c" by simp
      from Cons.IH [OF this Cons.prems(2)] q Inr \<open>mkdir (fs w) (base @ [s]) = Inl err\<close>
      show ?thesis by (simp add: resolveDir_Cons)
    qed
  qed
qed

lemma binaryPath_nonempty: "binaryPath \<noteq> []"
  by (simp add: binaryPath_def)

lemma getRuntimePath_existing:
  assumes "HOME e = Some home" "lookup (fs w) (installationDir home v) = Inr (Dir ds)"
  shows "getRuntimePath e v w = (Inr (installationDir home v), w)"
proof -
  have "resolveDir home ([''OpenFin'', ''Runtime'', v] @ []) w =
        resolveDir (home @ [''OpenFin'', ''Runtime'', v]) [] w"
    using assms(2) unfolding installationDir_def by (rule resolveDir_adopt)
  then show ?thesis
    using assms(1) by (simp add: getRuntimePath_resolveDir resolveDir_Nil installationDir_def)
qed

lemma install_fast:
  assumes home: "HOME e = Some home"
    and res: "resolveRuntimeVersion e versionOrChannel w = (Inr v, w0)"
    and bin: "lookup (fs w0) (installationDir home v @ binaryPath) = Inr n"
  shows "install e versionOrChannel w =
     (Inr (installationDir home v @ binaryPath),
      w0\<lparr>fs := alter (installationDir home v @ binaryPath) (map_option (setMode 493)) (fs w0),
         trace := trace w0 @ [Chmod (installationDir home v @ binaryPath) 493]\<rparr>)"
proof -
  from lookup_prefix_dir [OF bin binaryPath_nonempty] obtain ds where
    "lookup (fs w0) (installationDir home v) = Inr (Dir ds)" by blast
  from getRuntimePath_existing [OF home this]
  have g: "getRuntimePath e v w0 = (Inr (installationDir home v), w0)" .
  show ?thesis
    using res g bin by (simp add: install_def stat_def chmod_def Let_def)
qed

lemma install_slow:
  assumes home: "HOME e = Some home"
    and res: "resolveRuntimeVersion e versionOrChannel w = (Inr v, w0)"
    and dir: "getRuntimePath e v w0 = (Inr folder, w2)"
    and bin: "lookup (fs w2) (folder @ binaryPath) = Inl c"
  shows "install e versionOrChannel w =
     (case download e v folder w2 of
        (Inl err, w3) \<Rightarrow>
          (if uncaught err then (Inl err, w3)
           else (Inl (CouldNotInstall versionOrChannel v), w3))
      | (Inr x, w3) \<Rightarrow> (Inr (folder @ binaryPath), w3))"
  using res dir bin by (simp add: install_def stat_def Let_def)

lemma lookup_alter_map:
  assumes "lookup root p = Inr n" "p \<noteq> []"
  shows "lookup (alter p (map_option g) root) p = Inr (g n)"
proof -
  obtain p0 s where p: "p = p0 @ [s]" using assms(2) by (metis rev_exhaust)
  from lookup_prefix_dir [of root p0 "[s]" n] assms(1) obtain es where
    d: "lookup root p0 = Inr (Dir es)" unfolding p by auto
  with assms(1) have "map_of es s = Some n" unfolding p by (simp add: lookup_snoc split: option.splits)
  with lookup_alter_same [OF d, of s "map_option g" "[]"] show ?thesis by (simp add: p)
qed

text \<open>
  Claim C3. For a version of four numeric components, with \<^verbatim>\<open>HOME\<close> set: when the
  binary is at its place under the installation directory, \<^verbatim>\<open>install\<close> returns its
  path and the only effect is the \<^verbatim>\<open>chmod\<close> of the binary (no request, no download, no
  extraction). When the binary is missing, the archive served packs it and \<^verbatim>\<open>install\<close>
  succeeds, that call downloads and extracts once, and a second call right after it finds
  the binary and does the \<^verbatim>\<open>chmod\<close> only.
\<close>

theorem install_idempotent:
  assumes num: "list_all digits (split_char CHR ''.'' v)" "length (split_char CHR ''.'' v) = 4"
    and home: "HOME e = Some home"
  shows "(\<forall>n. lookup (fs w) (installationDir home v @ binaryPath) = Inr n \<longrightarrow>
            install e v w =
              (Inr (installationDir home v @ binaryPath),
               w\<lparr>fs := alter (installationDir home v @ binaryPath) (map_option (setMode 493)) (fs w),
                 trace := trace w @ [Chmod (installationDir home v @ binaryPath) 493]\<rparr>)) \<and>
         (\<forall>c entries mode p w1.
            lookup (fs w) (installationDir home v @ binaryPath) = Inl c \<and>
            http_download e (downloadUrl v) = (200, Zip entries) \<and>
            (binaryPath, mode) \<in> set entries \<and>
            install e v w = (Inr p, w1) \<longrightarrow>
            p = installationDir home v @ binaryPath \<and>
            trace w1 = trace w @
              [Download (downloadUrl v) (installationDir home v @ [''tmp'', ''tmp'']),
               Unzip (installationDir home v @ [''tmp'', ''tmp'']) (installationDir home v)] \<and>
            install e v w1 =
              (Inr (installationDir home v @ binaryPath),
               w1\<lparr>fs := alter (installationDir home v @ binaryPath) (map_option (setMode 493)) (fs w1),
                  trace := trace w1 @ [Chmod (installationDir home v @ binaryPath) 493]\<rparr>))"
proof (intro conjI allI impI)
  fix n assume "lookup (fs w) (installationDir home v @ binaryPath) = Inr n"
  with install_fast [OF home resolveRuntimeVersion_numeric4 [OF num]]
  show "install e v w =
              (Inr (installationDir home v @ binaryPath),
               w\<lparr>fs := alter (installationDir home v @ binaryPath) (map_option (setMode 493)) (fs w),
                 trace := trace w @ [Chmod (installationDir home v @ binaryPath) 493]\<rparr>)"
    by blast
next
  fix c entries mode p w1
  let ?dir = "installationDir home v"
  let ?bin = "?dir @ binaryPath"
  assume a: "lookup (fs w) ?bin = Inl c \<and> http_download e (downloadUrl v) = (200, Zip entries) \<and>
            (binaryPath, mode) \<in> set entries \<and> install e v w = (Inr p, w1)"
  have res: "resolveRuntimeVersion e v w = (Inr v, w)" for w
    using num by (rule resolveRuntimeVersion_numeric4)
  obtain r2 w2 where g: "getRuntimePath e v w = (r2, w2)" by (cases "getRuntimePath e v w")
  from a res [of w] g obtain folder where r2: "r2 = Inr folder"
    by (cases r2) (auto simp: install_def)
  from g r2 home have rd: "resolveDir home [''OpenFin'', ''Runtime'', v] w = (Inr folder, w2)"
    by (simp add: getRuntimePath_resolveDir)
  from resolveDir_result_path [OF rd] have folder: "folder = ?dir" by (simp add: installationDir_def)
  have t2: "trace w2 = trace w" using resolveDir_trace [of home "[''OpenFin'', ''Runtime'', v]" w] rd by simp
  from a have "lookup (fs w) (home @ [''OpenFin'', ''Runtime'', v] @ binaryPath) = Inl c"
    by (simp add: installationDir_def)
  from resolveDir_absent [OF this binaryPath_nonempty] rd folder
  obtain c' where absent: "lookup (fs w2) (folder @ binaryPath) = Inl c'"
    by (auto simp: installationDir_def)
  from a install_slow [OF home res [of w] g [unfolded r2] absent]
  obtain x where dl: "download e v folder w2 = (Inr x, w1)" and p: "p = folder @ binaryPath"
    by (auto split: prod.splits sum.splits if_splits)
  from a have arch: "http_download e (downloadUrl v) = (200, Zip entries)"
    and packed: "(binaryPath, mode) \<in> set entries" by auto
  from download_success [OF dl arch packed] t2 folder
  have t1: "trace w1 = trace w @ [Download (downloadUrl v) (?dir @ [''tmp'', ''tmp'']),
               Unzip (?dir @ [''tmp'', ''tmp'']) ?dir]"
    and b1: "lookup (fs w1) ?bin = Inr (File mode Plain)" by auto
  from p folder show "p = ?bin" by simp
  from t1 show "trace w1 = trace w @ [Download (downloadUrl v) (?dir @ [''tmp'', ''tmp'']),
               Unzip (?dir @ [''tmp'', ''tmp'']) ?dir]" .
  from install_fast [OF home res [of w1] b1]
  show "install e v w1 = (Inr ?bin,
               w1\<lparr>fs := alter ?bin (map_option (setMode 493)) (fs w1),
                  trace := trace w1 @ [Chmod ?bin 493]\<rparr>)" .
qed

lemma channelLookup_fs_update:
  "channelLookup e v (w\<lparr>fs := r\<rparr>) =
     (fst (channelLookup e v w), (snd (channelLookup e v w))\<lparr>fs := r\<rparr>)"
  by (simp add: channelLookup_def split: sum.splits)

lemma indexLookup_fs_update:
  "indexLookup e v pre (w\<lparr>fs := r\<rparr>) =
     (fst (indexLookup e v pre w), (snd (indexLookup e v pre w))\<lparr>fs := r\<rparr>)"
proof -
  have c: "channelLookup e v (w\<lparr>fs := r, trace := t\<rparr>) =
     (fst (channelLookup e v (w\<lparr>trace := t\<rparr>)),
      (snd (channelLookup e v (w\<lparr>trace := t\<rparr>)))\<lparr>fs := r\<rparr>)" for t
    by (simp add: channelLookup_def split: sum.splits)
  show ?thesis
    by (simp add: indexLookup_def Let_def c split: sum.splits option.splits)
qed

lemma resolveRuntimeVersion_fs_update:
  "resolveRuntimeVersion e v (w\<lparr>fs := r\<rparr>) =
     (fst (resolveRuntimeVersion e v w), (snd (resolveRuntimeVersion e v w))\<lparr>fs := r\<rparr>)"
  by (simp add: resolveRuntimeVersion_def Let_def channelLookup_fs_update indexLookup_fs_update)

text \<open>
  Claim C7, as amended. When the binary is present, \<^verbatim>\<open>install\<close> only sets its mode and
  every path beside it reads as before. When the binary is missing and the installation
  directory exists, \<^verbatim>\<open>download\<close> starts with \<^verbatim>\<open>rmDir(folder, false)\<close>, which
  succeeds and leaves the directory in place and empty, every path beside it as before;
  \<^verbatim>\<open>install\<close> then ends, in result and in world, exactly as it does when started on
  the emptied directory, whether it succeeds or fails. So afterwards the directory is still
  a directory, whatever is found below it is the staging directory, the staging file, or
  lies on the path of an archive entry, and no entry remains under a name other than the
  staging directory's that no archive entry starts with.
\<close>

theorem install_empties_installation_directory:
  assumes home: "HOME e = Some home"
    and res: "resolveRuntimeVersion e versionOrChannel w = (Inr v, w0)"
    and inst: "install e versionOrChannel w = (r, w')"
  shows "(\<forall>n. lookup (fs w) (installationDir home v @ binaryPath) = Inr n \<longrightarrow>
            lookup (fs w') (installationDir home v @ binaryPath) = Inr (setMode 493 n) \<and>
            (\<forall>q. (installationDir home v @ binaryPath) \<parallel> q \<longrightarrow>
                 lookup (fs w') q = lookup (fs w) q)) \<and>
         (\<forall>c ds.
            lookup (fs w) (installationDir home v @ binaryPath) = Inl c \<and>
            lookup (fs w) (installationDir home v) = Inr (Dir ds) \<longrightarrow>
            (\<exists>root1. rmDir (installationDir home v) False (fs w) = (Inr (), root1) \<and>
               lookup root1 (installationDir home v) = Inr (Dir []) \<and>
               (\<forall>q. installationDir home v \<parallel> q \<longrightarrow> lookup root1 q = lookup (fs w) q) \<and>
               install e versionOrChannel (w\<lparr>fs := root1\<rparr>) = (r, w')) \<and>
            (\<exists>es'. lookup (fs w') (installationDir home v) = Inr (Dir es')) \<and>
            (\<forall>p x. p \<noteq> [] \<and> lookup (fs w') (installationDir home v @ p) = Inr x \<longrightarrow>
               prefix p [''tmp'', ''tmp''] \<or>
               (\<exists>entries rel mode. snd (http_download e (downloadUrl v)) = Zip entries \<and>
                  (rel, mode) \<in> set entries \<and> prefix p rel)) \<and>
            (\<forall>name. name \<noteq> ''tmp'' \<and>
               (\<forall>entries. snd (http_download e (downloadUrl v)) = Zip entries \<longrightarrow>
                  (\<forall>(rel, mode)\<in>set entries. rel \<noteq> [] \<longrightarrow> hd rel \<noteq> name)) \<longrightarrow>
               lookup (fs w') (installationDir home v @ [name]) = Inl ENOENT))"
proof (intro conjI allI impI)
  let ?dir = "installationDir home v"
  let ?bin = "?dir @ binaryPath"
  have fs0: "fs w0 = fs w" using resolveRuntimeVersion_fs [of e versionOrChannel w] res by simp
  {
    fix n assume n: "lookup (fs w) ?bin = Inr n"
    from install_fast [OF home res] n fs0 inst
    have w': "fs w' = alter ?bin (map_option (setMode 493)) (fs w)" by auto
    have ne: "?bin \<noteq> []" using binaryPath_nonempty by simp
    from lookup_alter_map [OF n ne] w'
    show "lookup (fs w') ?bin = Inr (setMode 493 n)" by simp
    fix q assume "?bin \<parallel> q"
    with w' show "lookup (fs w') q = lookup (fs w) q" by (simp add: lookup_alter_parallel)
  }
  fix c ds
  assume a: "lookup (fs w) ?bin = Inl c \<and> lookup (fs w) ?dir = Inr (Dir ds)"
  then have dir0: "lookup (fs w0) ?dir = Inr (Dir ds)" and bin0: "lookup (fs w0) ?bin = Inl c"
    using fs0 by auto
  from getRuntimePath_existing [OF home dir0] have g: "getRuntimePath e v w0 = (Inr ?dir, w0)" .
  note slow = install_slow [OF home res g bin0]
  from slow inst have w': "fs w' = fs (snd (download e v ?dir w0))"
    by (auto split: prod.splits sum.splits if_splits)
  from download_contents [OF dir0, of e v] w'
  show "\<exists>es'. lookup (fs w') ?dir = Inr (Dir es')" by simp
  {
    fix p x
    assume "p \<noteq> [] \<and> lookup (fs w') (?dir @ p) = Inr x"
    with download_contents [OF dir0, of e v] w'
    show "prefix p [''tmp'', ''tmp''] \<or>
         (\<exists>entries rel mode. snd (http_download e (downloadUrl v)) = Zip entries \<and>
            (rel, mode) \<in> set entries \<and> prefix p rel)"
      by simp
  }
  {
    fix name
    assume "name \<noteq> ''tmp'' \<and>
         (\<forall>entries. snd (http_download e (downloadUrl v)) = Zip entries \<longrightarrow>
            (\<forall>(rel, mode)\<in>set entries. rel \<noteq> [] \<longrightarrow> hd rel \<noteq> name))"
    with download_entry_gone [OF dir0, of name e v] w'
    show "lookup (fs w') (?dir @ [name]) = Inl ENOENT" by auto
  }
  from rmDir_spec [of False ?dir "fs w"] a obtain root1 where
    s1: "rmDir ?dir False (fs w) = (Inr (), root1)" and e1: "lookup root1 ?dir = Inr (Dir [])"
    and par: "\<forall>q. ?dir \<parallel> q \<longrightarrow> lookup root1 q = lookup (fs w) q"
    by auto
  have res1: "resolveRuntimeVersion e versionOrChannel (w\<lparr>fs := root1\<rparr>) = (Inr v, w0\<lparr>fs := root1\<rparr>)"
    using res by (simp add: resolveRuntimeVersion_fs_update)
  have dir1: "lookup (fs (w0\<lparr>fs := root1\<rparr>)) ?dir = Inr (Dir [])" using e1 by simp
  from getRuntimePath_existing [OF home dir1]
  have g1: "getRuntimePath e v (w0\<lparr>fs := root1\<rparr>) = (Inr ?dir, w0\<lparr>fs := root1\<rparr>)" .
  obtain b bs where bp: "binaryPath = b # bs" using binaryPath_nonempty by (cases binaryPath) auto
  have bin1: "lookup (fs (w0\<lparr>fs := root1\<rparr>)) ?bin = Inl ENOENT"
    using e1 by (simp add: lookup_append bp)
  have "rmDir ?dir False (fs w0) = (Inr (), root1)" using s1 fs0 by simp
  from download_from_emptied [OF this e1]
  have same: "download e v ?dir (w0\<lparr>fs := root1\<rparr>) = download e v ?dir w0" .
  have "install e versionOrChannel (w\<lparr>fs := root1\<rparr>) = install e versionOrChannel w"
    unfolding slow install_slow [OF home res1 g1 bin1] same ..
  with inst s1 e1 par
  show "\<exists>root1. rmDir ?dir False (fs w) = (Inr (), root1) \<and>
               lookup root1 ?dir = Inr (Dir []) \<and>
               (\<forall>q. ?dir \<parallel> q \<longrightarrow> lookup root1 q = lookup (fs w) q) \<and>
               install e versionOrChannel (w\<lparr>fs := root1\<rparr>) = (r, w')"
    by auto
qed

theorem install_idempotent_witness:
  "install env_scenario ''10.65.1.2'' world_installed =
     (Inr (installationDir [''Users'', ''dev''] ''10.65.1.2'' @ binaryPath),
      world_installed
        \<lparr>fs := alter (installationDir [''Users'', ''dev''] ''10.65.1.2'' @ binaryPath)
                 (map_option (setMode 493)) (fs world_installed),
         trace := [Chmod (installationDir [''Users'', ''dev''] ''10.65.1.2'' @ binaryPath) 493]\<rparr>) \<and>
   trace (snd (install env_scenario ''10.65.1.2'' world_home)) =
     [Download (downloadUrl ''10.65.1.2'')
        (installationDir [''Users'', ''dev''] ''10.65.1.2'' @ [''tmp'', ''tmp'']),
      Unzip (installationDir [''Users'', ''dev''] ''10.65.1.2'' @ [''tmp'', ''tmp''])
        (installationDir [''Users'', ''dev''] ''10.65.1.2'')] \<and>
   trace (snd (install env_scenario ''10.65.1.2''
                 (snd (install env_scenario ''10.65.1.2'' world_home)))) =
     [Download (downloadUrl ''10.65.1.2'')
        (installationDir [''Users'', ''dev''] ''10.65.1.2'' @ [''tmp'', ''tmp'']),
      Unzip (installationDir [''Users'', ''dev''] ''10.65.1.2'' @ [''tmp'', ''tmp''])
        (installationDir [''Users'', ''dev''] ''10.65.1.2''),
      Chmod (installationDir [''Users'', ''dev''] ''10.65.1.2'' @ binaryPath) 493]"
proof -
  let ?v = "''10.65.1.2''" and ?home = "[''Users'', ''dev'']"
  let ?bin = "installationDir ?home ?v @ binaryPath"
  let ?w1 = "snd (install env_scenario ?v world_home)"
  have d: "list_all digits (split_char CHR ''.'' ?v)" by (simp add: digits_def is_digit_def)
  have l: "length (split_char CHR ''.'' ?v) = 4" by simp
  have h: "HOME env_scenario = Some ?home" by (simp add: env_scenario_def)
  have present: "lookup (fs world_installed) ?bin = Inr (File 420 Plain)" by code_simp
  have absent: "lookup (fs world_home) ?bin = Inl ENOENT" by code_simp
  have arch: "http_download env_scenario (downloadUrl ?v) =
      (200, Zip [(binaryPath, 493), ([''OpenFin.app'', ''Contents'', ''Info.plist''], 420)])"
    by (simp add: env_scenario_def)
  have packed: "(binaryPath, 493) \<in>
      set [(binaryPath, 493), ([''OpenFin.app'', ''Contents'', ''Info.plist''], 420::nat)]"
    by simp
  have "fst (install env_scenario ?v world_home) = Inr ?bin" by code_simp
  then have first: "install env_scenario ?v world_home = (Inr ?bin, ?w1)"
    by (metis prod.collapse)
  have tr: "trace world_installed = []" "trace world_home = []"
    by (simp_all add: world_installed_def world_home_def)
  have a: "install env_scenario ?v world_installed =
     (Inr ?bin, world_installed\<lparr>fs := alter ?bin (map_option (setMode 493)) (fs world_installed),
         trace := trace world_installed @ [Chmod ?bin 493]\<rparr>)"
    by (rule install_idempotent [OF d l h, of world_installed, THEN conjunct1, rule_format,
          OF present])
  have b: "?bin = ?bin \<and>
        trace ?w1 = trace world_home @
              [Download (downloadUrl ?v) (installationDir ?home ?v @ [''tmp'', ''tmp'']),
               Unzip (installationDir ?home ?v @ [''tmp'', ''tmp'']) (installationDir ?home ?v)] \<and>
        install env_scenario ?v ?w1 =
              (Inr ?bin, ?w1\<lparr>fs := alter ?bin (map_option (setMode 493)) (fs ?w1),
                  trace := trace ?w1 @ [Chmod ?bin 493]\<rparr>)"
    by (rule install_idempotent [OF d l h, of world_home, THEN conjunct2, rule_format,
          of ENOENT "[(binaryPath, 493), ([''OpenFin.app'', ''Contents'', ''Info.plist''], 420)]"
             493 ?bin ?w1])
       (intro conjI absent arch packed first)
  from b have t1: "trace ?w1 = trace world_home @
              [Download (downloadUrl ?v) (installationDir ?home ?v @ [''tmp'', ''tmp'']),
               Unzip (installationDir ?home ?v @ [''tmp'', ''tmp'']) (installationDir ?home ?v)]"
    and i2: "install env_scenario ?v ?w1 =
              (Inr ?bin, ?w1\<lparr>fs := alter ?bin (map_option (setMode 493)) (fs ?w1),
                  trace := trace ?w1 @ [Chmod ?bin 493]\<rparr>)"
    by (rule conjunct1 [OF conjunct2], rule conjunct2 [OF conjunct2])
  have t2: "trace (snd (install env_scenario ?v ?w1)) = trace ?w1 @ [Chmod ?bin 493]"
    unfolding i2 by simp
  show ?thesis
    unfolding t2 t1 a tr by simp
qed


theorem install_empties_installation_directory_witness:
  "lookup (fs world_partial)
     (installationDir [''Users'', ''dev''] ''10.65.1.2'' @ [''notes.txt'']) = Inr (File 420 Plain) \<and>
   lookup (fs world_partial)
     (installationDir [''Users'', ''dev''] ''10.65.1.2'' @
        [''OpenFin.app'', ''Contents'', ''stale.txt'']) = Inr (File 420 Plain) \<and>
   lookup (fs world_partial)
     (installationDir [''Users'', ''dev''] ''10.65.1.2'' @ [''tmp'', ''old'']) =
     Inr (File 420 Plain) \<and>
   lookup (fs (snd (install env_scenario ''10.65.1.2'' world_partial)))
     (installationDir [''Users'', ''dev''] ''10.65.1.2'' @ [''notes.txt'']) = Inl ENOENT \<and>
   isl (lookup (fs (snd (install env_scenario ''10.65.1.2'' world_partial)))
     (installationDir [''Users'', ''dev''] ''10.65.1.2'' @
        [''OpenFin.app'', ''Contents'', ''stale.txt''])) \<and>
   isl (lookup (fs (snd (install env_scenario ''10.65.1.2'' world_partial)))
     (installationDir [''Users'', ''dev''] ''10.65.1.2'' @ [''tmp'', ''old''])) \<and>
   (\<exists>es. lookup (fs (snd (install env_scenario ''10.65.1.2'' world_partial)))
     (installationDir [''Users'', ''dev''] ''10.65.1.2'') = Inr (Dir es))"
proof -
  let ?v = "''10.65.1.2''" and ?home = "[''Users'', ''dev'']"
  let ?dir = "installationDir ?home ?v"
  let ?I = "install env_scenario ?v world_partial"
  let ?ds = "[(''notes.txt'', File 420 Plain),
              (''OpenFin.app'', Dir [(''Contents'', Dir [(''stale.txt'', File 420 Plain)])]),
              (''tmp'', Dir [(''old'', File 420 Plain)])]"
  let ?arch = "[(binaryPath, 493), ([''OpenFin.app'', ''Contents'', ''Info.plist''], 420::nat)]"
  have h: "HOME env_scenario = Some ?home" by (simp add: env_scenario_def)
  have res: "resolveRuntimeVersion env_scenario ?v world_partial = (Inr ?v, world_partial)"
    by code_simp
  have inst: "?I = (fst ?I, snd ?I)" by simp
  have b1: "lookup (fs world_partial) (?dir @ [''notes.txt'']) = Inr (File 420 Plain)"
    by code_simp
  have b2: "lookup (fs world_partial) (?dir @ [''OpenFin.app'', ''Contents'', ''stale.txt'']) =
      Inr (File 420 Plain)"
    by code_simp
  have b3: "lookup (fs world_partial) (?dir @ [''tmp'', ''old'']) = Inr (File 420 Plain)"
    by code_simp
  have absent: "lookup (fs world_partial) (?dir @ binaryPath) = Inl ENOENT" by code_simp
  have dir: "lookup (fs world_partial) ?dir = Inr (Dir ?ds)" by code_simp
  have arch: "snd (http_download env_scenario (downloadUrl ?v)) = Zip ?arch"
    by (simp add: env_scenario_def)
  have slow: "(\<exists>root1. rmDir ?dir False (fs world_partial) = (Inr (), root1) \<and>
               lookup root1 ?dir = Inr (Dir []) \<and>
               (\<forall>q. ?dir \<parallel> q \<longrightarrow> lookup root1 q = lookup (fs world_partial) q) \<and>
               install env_scenario ?v (world_partial\<lparr>fs := root1\<rparr>) = (fst ?I, snd ?I)) \<and>
            (\<exists>es'. lookup (fs (snd ?I)) ?dir = Inr (Dir es')) \<and>
            (\<forall>p x. p \<noteq> [] \<and> lookup (fs (snd ?I)) (?dir @ p) = Inr x \<longrightarrow>
               prefix p [''tmp'', ''tmp''] \<or>
               (\<exists>entries rel mode. snd (http_download env_scenario (downloadUrl ?v)) = Zip entries \<and>
                  (rel, mode) \<in> set entries \<and> prefix p rel)) \<and>
            (\<forall>name. name \<noteq> ''tmp'' \<and>
               (\<forall>entries. snd (http_download env_scenario (downloadUrl ?v)) = Zip entries \<longrightarrow>
                  (\<forall>(rel, mode)\<in>set entries. rel \<noteq> [] \<longrightarrow> hd rel \<noteq> name)) \<longrightarrow>
               lookup (fs (snd ?I)) (?dir @ [name]) = Inl ENOENT)"
    by (rule install_empties_installation_directory [OF h res inst, THEN conjunct2, rule_format,
          of ENOENT ?ds])
       (intro conjI absent dir)
  from slow have kept: "\<exists>es. lookup (fs (snd ?I)) ?dir = Inr (Dir es)"
    by (rule conjunct1 [OF conjunct2])
  from slow have origin: "\<forall>p x. p \<noteq> [] \<and> lookup (fs (snd ?I)) (?dir @ p) = Inr x \<longrightarrow>
               prefix p [''tmp'', ''tmp''] \<or>
               (\<exists>entries rel mode. snd (http_download env_scenario (downloadUrl ?v)) = Zip entries \<and>
                  (rel, mode) \<in> set entries \<and> prefix p rel)"
    by (rule conjunct1 [OF conjunct2 [OF conjunct2]])
  from slow have gone: "\<forall>name. name \<noteq> ''tmp'' \<and>
               (\<forall>entries. snd (http_download env_scenario (downloadUrl ?v)) = Zip entries \<longrightarrow>
                  (\<forall>(rel, mode)\<in>set entries. rel \<noteq> [] \<longrightarrow> hd rel \<noteq> name)) \<longrightarrow>
               lookup (fs (snd ?I)) (?dir @ [name]) = Inl ENOENT"
    by (rule conjunct2 [OF conjunct2 [OF conjunct2]])
  have a1: "lookup (fs (snd ?I)) (?dir @ [''notes.txt'']) = Inl ENOENT"
    by (rule gone [rule_format]) (simp add: arch binaryPath_def)
  have unpacked: "\<not> (prefix p [''tmp'', ''tmp''] \<or>
               (\<exists>entries rel mode. snd (http_download env_scenario (downloadUrl ?v)) = Zip entries \<and>
                  (rel, mode) \<in> set entries \<and> prefix p rel))"
    if "p = [''OpenFin.app'', ''Contents'', ''stale.txt''] \<or> p = [''tmp'', ''old'']" for p
    using that unfolding arch by (auto simp: binaryPath_def)
  have a2: "isl (lookup (fs (snd ?I)) (?dir @ p))"
    if p: "p = [''OpenFin.app'', ''Contents'', ''stale.txt''] \<or> p = [''tmp'', ''old'']" for p
  proof (cases "lookup (fs (snd ?I)) (?dir @ p)")
    case (Inl c)
    then show ?thesis by simp
  next
    case (Inr x)
    have "p \<noteq> []" using p by auto
    with origin Inr unpacked [OF p] show ?thesis by blast
  qed
  from b1 b2 b3 a1 a2 [of "[''OpenFin.app'', ''Contents'', ''stale.txt'']"] a2 [of "[''tmp'', ''old'']"]
    kept
  show ?thesis by (intro conjI) simp_all
qed


text \<open>
  Claim C7 as stated fails: a file that was in the installation directory before a
  successful \<^verbatim>\<open>install\<close> is gone after it.
\<close>

theorem stale_file_counterexample:
  "lookup (fs world_stale) [''Users'', ''dev'', ''OpenFin'', ''Runtime'', ''10.65.1.2'', ''notes.txt''] =
     Inr (File 420 Plain) \<and>
   fst (install env_scenario ''10.65.1.2'' world_stale) =
     Inr [''Users'', ''dev'', ''OpenFin'', ''Runtime'', ''10.65.1.2'',
          ''OpenFin.app'', ''Contents'', ''MacOS'', ''OpenFin''] \<and>
   lookup (fs (snd (install env_scenario ''10.65.1.2'' world_stale)))
     [''Users'', ''dev'', ''OpenFin'', ''Runtime'', ''10.65.1.2'', ''notes.txt''] = Inl ENOENT \<and>
   lookup (fs (snd (install env_scenario ''10.65.1.2'' world_stale)))
     [''Users'', ''dev'', ''OpenFin'', ''Runtime'', ''10.65.1.2'', ''tmp''] = Inl ENOENT"
  by code_simp



end
